theory Spec2Isabelle
  imports Complex_Main "HOL-Library.Word" "HOL-Library.AList" "HOL-Library.Log_Nat"
begin

section \<open>Numeric values\<close>

text \<open>
  A float64 is a number or one of the three special values of IEEE 754. A number is kept as
  the rational it denotes. Every operation computes the exact result and rounds it to the
  nearest float64, ties to the even mantissa, with gradual underflow, and to an infinity
  when the rounded magnitude reaches \<open>2 ^ 1024\<close>. The sign of a zero is not represented.
\<close>

datatype float64 = Num rat | PInf | NInf | NaN

fun isinf :: "float64 \<Rightarrow> bool" where
  "isinf PInf = True"
| "isinf NInf = True"
| "isinf _ = False"

fun isfinite :: "float64 \<Rightarrow> bool" where
  "isfinite (Num _) = True"
| "isfinite _ = False"

definition round_half_even :: "rat \<Rightarrow> int" where
  "round_half_even x =
     (let f = \<lfloor>x\<rfloor>; d = x - of_int f
      in if d < 1 / 2 then f else if 1 / 2 < d then f + 1 else if even f then f else f + 1)"

text \<open>
  Rounding a rational to float64. The magnitude is counted in units of \<open>2 ^ - 1074\<close>, the
  smallest positive float64; a mantissa has 53 bits, so the \<open>k\<close> low bits beyond them are
  rounded away, none for a subnormal magnitude.
\<close>

definition round_f64 :: "rat \<Rightarrow> float64" where
  "round_f64 q =
     (let t = \<bar>q\<bar> * 2 ^ 1074;
          k = nat (bitlen \<lfloor>t\<rfloor> - 53);
          n = round_half_even (t / 2 ^ k)
      in if 2 ^ 2098 \<le> n * 2 ^ k then (if 0 < q then PInf else NInf)
         else Num (sgn q * (of_int (n * 2 ^ k) / 2 ^ 1074)))"

text \<open>The largest float64.\<close>

definition f64_max :: rat where
  "f64_max = (2 ^ 53 - 1) * 2 ^ 971"

fun f64_add :: "float64 \<Rightarrow> float64 \<Rightarrow> float64" where
  "f64_add NaN _ = NaN"
| "f64_add _ NaN = NaN"
| "f64_add PInf NInf = NaN"
| "f64_add NInf PInf = NaN"
| "f64_add PInf _ = PInf"
| "f64_add _ PInf = PInf"
| "f64_add NInf _ = NInf"
| "f64_add _ NInf = NInf"
| "f64_add (Num a) (Num b) = round_f64 (a + b)"

text \<open>True division of float64 values, the element-wise \<open>/\<close> of two arrays: no exception on
  a zero divisor, \<open>0 / 0\<close> is NaN and \<open>x / 0\<close> is an infinity.\<close>

fun f64_div :: "float64 \<Rightarrow> float64 \<Rightarrow> float64" where
  "f64_div NaN _ = NaN"
| "f64_div _ NaN = NaN"
| "f64_div (Num a) (Num b) =
     (if b = 0 then (if a = 0 then NaN else if 0 < a then PInf else NInf)
      else round_f64 (a / b))"
| "f64_div (Num a) _ = Num 0"
| "f64_div PInf (Num b) = (if 0 \<le> b then PInf else NInf)"
| "f64_div NInf (Num b) = (if 0 \<le> b then NInf else PInf)"
| "f64_div _ _ = NaN"

instantiation float64 :: "{zero,plus}"
begin
definition zero_float64 :: float64 where "zero_float64 = Num 0"
definition plus_float64 :: "float64 \<Rightarrow> float64 \<Rightarrow> float64" where "plus_float64 = f64_add"
instance ..
end

type_synonym int32 = "32 word"
type_synonym int64 = "64 word"

text \<open>The conversions of the integer dtypes to float64: to the nearest float64, which is
  the integer itself below \<open>2 ^ 53\<close> in magnitude.\<close>

definition f64_of_int32 :: "int32 \<Rightarrow> float64" where
  "f64_of_int32 c = round_f64 (of_int (sint c))"

definition f64_of_int64 :: "int64 \<Rightarrow> float64" where
  "f64_of_int64 c = round_f64 (of_int (sint c))"

text \<open>A float64 whose magnitude, when it is a number, does not exceed the largest
  float64: what every operation above returns.\<close>

fun f64_in_range :: "float64 \<Rightarrow> bool" where
  "f64_in_range (Num a) = (\<bar>a\<bar> \<le> f64_max)"
| "f64_in_range _ = True"

section \<open>Errors\<close>

text \<open>
  Every exception the module can raise is a value. \<open>OutOfBounds\<close> is not a Python
  exception: the two reducers are compiled by numba without bounds checks, and an index
  below \<open>-len\<close> reads and writes outside the array; the model stops there.
\<close>

datatype error =
    ValueError string
  | AssertionError
  | KeyError string
  | AttributeError string
  | TypeError string
  | IndexError
  | NameError string
  | TypingError
  | OutOfBounds

section \<open>GroupReducer: mean_per_ID and sum_per_ID\<close>

text \<open>Indexing an array of length \<open>n\<close> with a signed integer: a negative index counts
  from the end.\<close>

definition np_index :: "int \<Rightarrow> nat \<Rightarrow> nat option" where
  "np_index g n =
     (if 0 \<le> g \<and> g < int n then Some (nat g)
      else if g < 0 \<and> - int n \<le> g then Some (nat (g + int n))
      else None)"

text \<open>The loop \<open>for i in range(size)\<close> of \<open>sum_per_ID\<close>, over the pairs
  \<open>(values[i], group_ids[i])\<close>.\<close>

fun sum_loop :: "('a::{zero,plus} \<times> int) list \<Rightarrow> int \<Rightarrow> 'a list \<Rightarrow> error + 'a list" where
  "sum_loop [] n_groups sum_per_group = Inr sum_per_group"
| "sum_loop ((v, group_id) # rest) n_groups sum_per_group =
     (if \<not> group_id < n_groups then Inl AssertionError
      else case np_index group_id (length sum_per_group) of
             None \<Rightarrow> Inl OutOfBounds
           | Some j \<Rightarrow> sum_loop rest n_groups (sum_per_group[j := sum_per_group ! j + v]))"

definition sum_per_ID :: "('a::{zero,plus}) list \<Rightarrow> int list \<Rightarrow> int \<Rightarrow> error + 'a list" where
  "sum_per_ID values group_ids n_groups =
     (if length values \<noteq> length group_ids then Inl AssertionError
      else if n_groups < 0 then Inl (ValueError ''negative dimensions not allowed'')
      else sum_loop (zip values group_ids) n_groups (replicate (nat n_groups) 0))"

text \<open>The loop of \<open>mean_per_ID\<close>: the counts are int32, the sums have the dtype of the
  values.\<close>

fun mean_loop ::
  "('a::{zero,plus} \<times> int) list \<Rightarrow> int \<Rightarrow> int32 list \<Rightarrow> 'a list \<Rightarrow> error + (int32 list \<times> 'a list)" where
  "mean_loop [] n_groups count_per_group sum_per_group = Inr (count_per_group, sum_per_group)"
| "mean_loop ((v, group_id) # rest) n_groups count_per_group sum_per_group =
     (if \<not> group_id < n_groups then Inl AssertionError
      else case np_index group_id (length count_per_group) of
             None \<Rightarrow> Inl OutOfBounds
           | Some j \<Rightarrow>
               mean_loop rest n_groups
                 (count_per_group[j := count_per_group ! j + 1])
                 (sum_per_group[j := sum_per_group ! j + v]))"

text \<open>\<open>sum_per_group / count_per_group\<close> converts both arrays to float64 and divides
  element by element; \<open>to_f64\<close> is the conversion of the values' dtype.\<close>

definition mean_per_ID ::
  "('a \<Rightarrow> float64) \<Rightarrow> ('a::{zero,plus}) list \<Rightarrow> int list \<Rightarrow> int \<Rightarrow> error + float64 list" where
  "mean_per_ID to_f64 values group_ids n_groups =
     (if length values \<noteq> length group_ids then Inl AssertionError
      else if n_groups < 0 then Inl (ValueError ''negative dimensions not allowed'')
      else case mean_loop (zip values group_ids) n_groups
                  (replicate (nat n_groups) 0) (replicate (nat n_groups) 0) of
             Inl e \<Rightarrow> Inl e
           | Inr (count_per_group, sum_per_group) \<Rightarrow>
               Inr (map2 (\<lambda>s c. f64_div (to_f64 s) (f64_of_int32 c)) sum_per_group count_per_group))"

section \<open>Python values\<close>

text \<open>
  The values that flow from the agents through the reporter. A float or an int of Python
  (\<open>bool\<close> is a subclass of \<open>int\<close> and is read as one), \<open>None\<close>, a string as the
  representative of the non-numeric objects, a Python list, a NumPy scalar (\<open>np.generic\<close>)
  holding the native value that \<open>item()\<close> returns, and a NumPy array. An array lists its
  elements along the first axis: native values for a one-dimensional array, arrays for
  more dimensions.
\<close>

datatype pyval =
    PyNone
  | PyInt int
  | PyFloat float64
  | PyStr string
  | PyList "pyval list"
  | NpGeneric pyval
  | NpArray "pyval list"

fun seq :: "error + 'a \<Rightarrow> ('a \<Rightarrow> error + 'b) \<Rightarrow> error + 'b" where
  "seq (Inl e) f = Inl e"
| "seq (Inr x) f = f x"

fun is_numpy :: "pyval \<Rightarrow> bool" where
  "is_numpy (NpGeneric _) = True"
| "is_numpy (NpArray _) = True"
| "is_numpy _ = False"

fun np_leaves :: "pyval \<Rightarrow> pyval list" where
  "np_leaves (NpArray xs) = concat (map np_leaves xs)"
| "np_leaves (NpGeneric x) = [x]"
| "np_leaves x = [x]"

definition np_size :: "pyval \<Rightarrow> nat" where
  "np_size a = length (np_leaves a)"

text \<open>\<open>a.item()\<close>: the single element of a NumPy value as a native Python value.\<close>

definition np_item :: "pyval \<Rightarrow> error + pyval" where
  "np_item a =
     (if is_numpy a then
        (case np_leaves a of
           [x] \<Rightarrow> Inr x
         | _ \<Rightarrow> Inl (ValueError ''can only convert an array of size 1 to a Python scalar''))
      else Inl (AttributeError ''item''))"

fun np_tolist :: "pyval \<Rightarrow> pyval" where
  "np_tolist (NpArray xs) = PyList (map np_tolist xs)"
| "np_tolist x = x"

fun is_iterable :: "pyval \<Rightarrow> bool" where
  "is_iterable (PyList _) = True"
| "is_iterable (NpArray _) = True"
| "is_iterable (PyStr _) = True"
| "is_iterable _ = False"

text \<open>Iteration: a list gives its elements, an array its elements along the first axis
  (NumPy scalars for a one-dimensional array), a string its characters.\<close>

fun py_iter :: "pyval \<Rightarrow> error + pyval list" where
  "py_iter (PyList xs) = Inr xs"
| "py_iter (NpArray xs) = Inr (map (\<lambda>x. if is_numpy x then x else NpGeneric x) xs)"
| "py_iter (PyStr s) = Inr (map (\<lambda>c. PyStr [c]) s)"
| "py_iter _ = Inl (TypeError ''object is not iterable'')"

fun py_len :: "pyval \<Rightarrow> error + nat" where
  "py_len (PyList xs) = Inr (length xs)"
| "py_len (NpArray xs) = Inr (length xs)"
| "py_len (PyStr s) = Inr (length s)"
| "py_len _ = Inl (TypeError ''object has no len()'')"

section \<open>ValueValidator: check_value\<close>

fun is_int_or_float :: "pyval \<Rightarrow> bool" where
  "is_int_or_float (PyInt _) = True"
| "is_int_or_float (PyFloat _) = True"
| "is_int_or_float _ = False"

fun is_infinite_float :: "pyval \<Rightarrow> bool" where
  "is_infinite_float (PyFloat f) = isinf f"
| "is_infinite_float _ = False"

text \<open>The text of the ValueError leaves out the formatted value and its type. An
  \<open>assert\<close> that fails raises: the interpreter is taken to run without \<open>-O\<close>.\<close>

definition check_value :: "pyval \<Rightarrow> error + unit" where
  "check_value v =
     (if \<not> (is_int_or_float v \<or> v = PyNone)
      then Inl (ValueError ''value is not Python float or int'')
      else if is_infinite_float v then Inl AssertionError
      else Inr ())"

text \<open>Lines 119 to 126 of \<open>report_value\<close>: a NumPy value of size 1 is replaced by its item,
  which is checked; then the elements of a list are replaced by their items, which are
  checked. Any other value passes as it is.\<close>

fun items :: "pyval list \<Rightarrow> error + pyval list" where
  "items [] = Inr []"
| "items (v # vs) = seq (np_item v) (\<lambda>x. seq (items vs) (\<lambda>xs. Inr (x # xs)))"

fun check_values :: "pyval list \<Rightarrow> error + unit" where
  "check_values [] = Inr ()"
| "check_values (v # vs) = seq (check_value v) (\<lambda>_. check_values vs)"

definition native_scalar :: "pyval \<Rightarrow> error + pyval" where
  "native_scalar v =
     (if is_numpy v \<and> np_size v = 1
      then seq (np_item v) (\<lambda>x. seq (check_value x) (\<lambda>_. Inr x))
      else Inr v)"

definition native_list :: "pyval \<Rightarrow> error + pyval" where
  "native_list v =
     (case v of
        PyList vs \<Rightarrow> seq (items vs) (\<lambda>xs. seq (check_values xs) (\<lambda>_. Inr (PyList xs)))
      | _ \<Rightarrow> Inr v)"

definition native_value :: "pyval \<Rightarrow> error + pyval" where
  "native_value v = seq (native_scalar v) native_list"

section \<open>The reporter, its configuration and its collaborators\<close>

text \<open>A name is a string, or for a split directive the pair of the name and an entity id.\<close>

datatype key = Name string | Pair string int

fun key_name :: "key \<Rightarrow> string" where
  "key_name (Name n) = n"
| "key_name (Pair n i) = n"

fun digit :: "nat \<Rightarrow> char" where
  "digit n = (''0123456789'' ! n)"

fun show_nat :: "nat \<Rightarrow> string" where
  "show_nat n = (if n < 10 then [digit n] else show_nat (n div 10) @ [digit (n mod 10)])"

definition show_int :: "int \<Rightarrow> string" where
  "show_int i = (if i < 0 then CHR ''-'' # show_nat (nat (- i)) else show_nat (nat i))"

text \<open>A name inside an f-string: the string itself, or the tuple as Python prints it (for
  a name without quotes or escapes, and a plain integer id).\<close>

fun fmt_key :: "key \<Rightarrow> string" where
  "fmt_key (Name n) = n"
| "fmt_key (Pair n i) = ''('' @ [CHR 0x27] @ n @ [CHR 0x27] @ '', '' @ show_int i @ '')''"

text \<open>The buffered history of one name: a list of values, or per entity id a list of
  values, in the order of insertion as a Python dict keeps it.\<close>

datatype series = Flat "pyval list" | PerID "(int \<times> pyval list) list"

datatype label = LTime string | LName string | LId int

record dataframe =
  df_index :: "label list"
  df_columns :: "label list"
  df_cells :: "pyval list list"

datatype content =
    Npy pyval
  | CsvLines "pyval list"
  | FrameCsv dataframe
  | FrameXlsx dataframe
  | FrameNpy dataframe

text \<open>The file system as the reporter changes it: the directories that exist and the
  files written, in order, each with the name of the directive it was written for. Creating
  a directory and opening a file always succeed here; permissions and full disks are not
  represented.\<close>

record write_event =
  w_directive :: string
  w_path :: string
  w_content :: content

record filesystem =
  dirs :: "string list"
  writes :: "write_event list"

record reporter =
  variables :: "(string \<times> series) list"
  timesteps :: "string list"
  export_folder :: string
  disk :: filesystem

text \<open>One entry of the report table. A field is \<open>None\<close> when the key is absent. The
  values have the types the module's documentation gives them; \<open>function\<close> is
  \<open>null\<close>, a name or a callable; of \<open>ids\<close> only the size is read.\<close>

datatype reduction = RNone | RName string | RCallable "pyval list \<Rightarrow> error + pyval"

record directive =
  d_type :: "string option"
  d_varname :: "string option"
  d_function :: "reduction option"
  d_format :: "string option"
  d_save :: "string option"
  d_initial_only :: "bool option"
  d_frequency :: "string option"
  d_split :: "bool option"
  d_ids :: "pyval option"
  d_scale :: "string option"

record config =
  c_report_folder :: string
  c_report :: "(string \<times> directive) list option"

text \<open>An agent collection: its attributes by name, and its list of entity ids.\<close>

record collection =
  attrs :: "(string \<times> pyval) list"
  ids :: "int list option"

text \<open>The model as the reporter sees it during one call. A time is kept as the text its
  \<open>isoformat()\<close> returns.\<close>

record model =
  m_config :: "config option"
  m_agents :: "(string \<times> collection) list option"
  m_current_time :: string
  m_current_timestep :: int

text \<open>What the reporter takes from the libraries it imports, as parameters: whether the
  optional \<open>cupy\<close> import succeeded, the whole-array reductions of NumPy, and the
  constructors of pandas tables.\<close>

record runtime =
  cupy_imported :: bool
  np_mean :: "pyval \<Rightarrow> error + pyval"
  np_sum :: "pyval \<Rightarrow> error + pyval"
  pd_from_dict :: "(label \<times> pyval) list \<Rightarrow> error + dataframe"
  pd_set_index :: "dataframe \<Rightarrow> label list \<Rightarrow> error + dataframe"
  pd_DataFrame :: "pyval list \<Rightarrow> label list \<Rightarrow> label list \<Rightarrow> error + dataframe"

section \<open>Exporter: export_value\<close>

text \<open>\<open>os.path.join\<close> of two components, as \<open>posixpath\<close> defines it.\<close>

definition path_join :: "string \<Rightarrow> string \<Rightarrow> string" where
  "path_join a b =
     (if b \<noteq> [] \<and> hd b = CHR ''/'' then b
      else if a = [] \<or> last a = CHR ''/'' then a @ b
      else a @ ''/'' @ b)"

text \<open>\<open>os.makedirs\<close> inside \<open>try ... except OSError: pass\<close>: the directory exists
  afterwards, whether it was there or not.\<close>

definition makedirs :: "string \<Rightarrow> filesystem \<Rightarrow> filesystem" where
  "makedirs folder fs = (if folder \<in> set (dirs fs) then fs else fs\<lparr>dirs := dirs fs @ [folder]\<rparr>)"

definition write_file :: "string \<Rightarrow> string \<Rightarrow> content \<Rightarrow> reporter \<Rightarrow> reporter" where
  "write_file name fp c r =
     r\<lparr>disk := (disk r)\<lparr>writes := writes (disk r) @
        [\<lparr>w_directive = name, w_path = fp, w_content = c\<rparr>]\<rparr>\<rparr>"

definition str_remove :: "char \<Rightarrow> string \<Rightarrow> string" where
  "str_remove c s = filter (\<lambda>x. x \<noteq> c) s"

text \<open>The file name without extension, lines 90 to 93.\<close>

definition export_filename :: "directive \<Rightarrow> reporter \<Rightarrow> error + string" where
  "export_filename conf r =
     (if d_frequency conf = Some ''initial_only'' then Inr ''initial''
      else if timesteps r = [] then Inl IndexError
      else Inr (str_remove CHR '':'' (str_remove CHR ''-'' (last (timesteps r)))))"

text \<open>The lines of a csv file, lines 101 to 106: the test for an array names \<open>cp\<close>, which
  is unbound when \<open>cupy\<close> could not be imported. The advisory log line for more than
  100000 items changes nothing and is left out.\<close>

definition csv_items :: "runtime \<Rightarrow> pyval \<Rightarrow> error + pyval list" where
  "csv_items rt v =
     (if \<not> cupy_imported rt then Inl (NameError ''cp'')
      else let v1 = (case v of NpArray _ \<Rightarrow> np_tolist v | _ \<Rightarrow> v)
           in seq (py_len v1) (\<lambda>_. py_iter v1))"

definition export_value ::
  "runtime \<Rightarrow> key \<Rightarrow> pyval \<Rightarrow> directive \<Rightarrow> reporter \<Rightarrow> (error + unit) \<times> reporter" where
  "export_value rt name v conf r =
     (case name of
        Pair n i \<Rightarrow> (Inl (TypeError ''expected str, bytes or os.PathLike object, not tuple''), r)
      | Name n \<Rightarrow>
          (let folder = path_join (export_folder r) n;
               r1 = r\<lparr>disk := makedirs folder (disk r)\<rparr>
           in case d_format conf of
                None \<Rightarrow>
                  (Inl (ValueError (''Export format must be specified for '' @ n @
                                     '' in config file (npy/csv/xlsx).'')), r1)
              | Some fmt \<Rightarrow>
                  (case export_filename conf r1 of
                     Inl e \<Rightarrow> (Inl e, r1)
                   | Inr fn \<Rightarrow>
                       if fmt = ''npy'' then
                         (Inr (), write_file n (path_join folder (fn @ ''.npy'')) (Npy v) r1)
                       else if fmt = ''csv'' then
                         (case csv_items rt v of
                            Inl e \<Rightarrow> (Inl e, r1)
                          | Inr lines \<Rightarrow>
                              (Inr (), write_file n (path_join folder (fn @ ''.csv'')) (CsvLines lines) r1))
                       else (Inl (ValueError (fmt @ '' not recognized'')), r1))))"

section \<open>ValueStore and report_value\<close>

text \<open>
  Lines 140 to 154. A dict is a list of pairs with distinct keys; \<open>AList.update\<close> replaces
  the value of a key in place and puts a new key last, as a Python dict does. Under a string
  name that holds a per-id mapping, \<open>append\<close> does not exist. Under a pair whose name holds a
  flat list, the source indexes the list by the id and fails unless the id happens to be a
  position of the list; a report table has one directive per name, split or not, so a
  reporter never gets there, and the model raises.
\<close>

definition append_value :: "key \<Rightarrow> pyval \<Rightarrow> reporter \<Rightarrow> (error + unit) \<times> reporter" where
  "append_value name v r =
     (case name of
        Pair n i \<Rightarrow>
          (case map_of (variables r) n of
             None \<Rightarrow> (Inr (), r\<lparr>variables := AList.update n (PerID [(i, [v])]) (variables r)\<rparr>)
           | Some (PerID d) \<Rightarrow>
               (case map_of d i of
                  None \<Rightarrow>
                    (Inr (), r\<lparr>variables := AList.update n (PerID (AList.update i [v] d)) (variables r)\<rparr>)
                | Some xs \<Rightarrow>
                    (Inr (), r\<lparr>variables :=
                               AList.update n (PerID (AList.update i (xs @ [v]) d)) (variables r)\<rparr>))
           | Some (Flat xs) \<Rightarrow> (Inl (TypeError ''list indices''), r))
      | Name n \<Rightarrow>
          (case map_of (variables r) n of
             None \<Rightarrow> (Inr (), r\<lparr>variables := AList.update n (Flat [v]) (variables r)\<rparr>)
           | Some (Flat xs) \<Rightarrow>
               (Inr (), r\<lparr>variables := AList.update n (Flat (xs @ [v])) (variables r)\<rparr>)
           | Some (PerID d) \<Rightarrow> (Inl (AttributeError ''append''), r)))"

text \<open>Lines 133 to 138: the export, once or every time.\<close>

definition export_phase ::
  "runtime \<Rightarrow> model \<Rightarrow> key \<Rightarrow> pyval \<Rightarrow> directive \<Rightarrow> reporter \<Rightarrow> (error + unit) \<times> reporter" where
  "export_phase rt m name v conf r =
     (if d_save conf = Some ''export'' \<or> d_save conf = Some ''save+export'' then
        (if d_initial_only conf = Some True then
           (if m_current_timestep m = 0 then export_value rt name v conf r else (Inr (), r))
         else export_value rt name v conf r)
      else (Inr (), r))"

definition save_phase :: "key \<Rightarrow> pyval \<Rightarrow> directive \<Rightarrow> reporter \<Rightarrow> (error + unit) \<times> reporter" where
  "save_phase name v conf r =
     (if d_save conf = Some ''save'' \<or> d_save conf = Some ''save+export''
      then append_value name v r
      else (Inr (), r))"

definition report_value ::
  "runtime \<Rightarrow> model \<Rightarrow> key \<Rightarrow> pyval \<Rightarrow> directive \<Rightarrow> reporter \<Rightarrow> (error + unit) \<times> reporter" where
  "report_value rt m name v conf r =
     (case native_value v of
        Inl e \<Rightarrow> (Inl e, r)
      | Inr v1 \<Rightarrow>
          (case d_save conf of
             None \<Rightarrow>
               (Inl (ValueError (''Save type must be specified for '' @ fmt_key name @
                                  '' in config file (save/save+export/export).'')), r)
           | Some s \<Rightarrow>
               if s \<notin> {''save'', ''export'', ''save+export''} then
                 (Inl (ValueError (''Save type for '' @ fmt_key name @ '' in config file must be '' @
                    [CHR 0x27] @ ''save'' @ [CHR 0x27] @ '', '' @ [CHR 0x27] @ ''save+export'' @
                    [CHR 0x27] @ '' or '' @ [CHR 0x27] @ ''export'' @ [CHR 0x27] @ '').'')), r)
               else
                 (case export_phase rt m name v1 conf r of
                    (Inl e, r1) \<Rightarrow> (Inl e, r1)
                  | (Inr _, r1) \<Rightarrow> save_phase name v1 conf r1)))"

section \<open>Extractor: parse_agent_data and extract_agent_data\<close>

text \<open>\<open>getattr(agents, name)\<close>.\<close>

definition get_attr :: "collection \<Rightarrow> string \<Rightarrow> error + pyval" where
  "get_attr agents a =
     (if a = ''ids'' then
        (case ids agents of
           None \<Rightarrow> Inl (AttributeError a)
         | Some is \<Rightarrow> Inr (NpArray (map PyInt is)))
      else case map_of (attrs agents) a of
             None \<Rightarrow> Inl (AttributeError a)
           | Some v \<Rightarrow> Inr v)"

text \<open>
  The two compiled reducers take one-dimensional arrays. numba compiles them for the dtype
  of the values, float64 or int64 here, and rejects any other argument when it types the
  call.
\<close>

fun the_float :: "pyval \<Rightarrow> float64 option" where
  "the_float (PyFloat f) = Some f"
| "the_float _ = None"

fun the_int :: "pyval \<Rightarrow> int option" where
  "the_int (PyInt i) = Some i"
| "the_int _ = None"

fun those_opt :: "'a option list \<Rightarrow> 'a list option" where
  "those_opt [] = Some []"
| "those_opt (None # xs) = None"
| "those_opt (Some x # xs) = (case those_opt xs of None \<Rightarrow> None | Some ys \<Rightarrow> Some (x # ys))"

fun as_f64_array :: "pyval \<Rightarrow> float64 list option" where
  "as_f64_array (NpArray xs) = those_opt (map the_float xs)"
| "as_f64_array _ = None"

fun as_int_array :: "pyval \<Rightarrow> int list option" where
  "as_int_array (NpArray xs) = those_opt (map the_int xs)"
| "as_int_array _ = None"

definition f64_result :: "error + float64 list \<Rightarrow> error + pyval" where
  "f64_result res = seq res (\<lambda>xs. Inr (NpArray (map PyFloat xs)))"

definition int64_result :: "error + int64 list \<Rightarrow> error + pyval" where
  "int64_result res = seq res (\<lambda>xs. Inr (NpArray (map (\<lambda>w. PyInt (sint w)) xs)))"

definition call_sum_per_ID :: "pyval list \<Rightarrow> error + pyval" where
  "call_sum_per_ID args =
     (case args of
        [vs, gs, PyInt n_groups] \<Rightarrow>
          (case as_int_array gs of
             None \<Rightarrow> Inl TypingError
           | Some group_ids \<Rightarrow>
               (case as_f64_array vs of
                  Some fs \<Rightarrow> f64_result (sum_per_ID fs group_ids n_groups)
                | None \<Rightarrow>
                    (case as_int_array vs of
                       Some is \<Rightarrow>
                         int64_result (sum_per_ID (map word_of_int is) group_ids n_groups)
                     | None \<Rightarrow> Inl TypingError)))
      | _ \<Rightarrow> Inl TypingError)"

definition call_mean_per_ID :: "pyval list \<Rightarrow> error + pyval" where
  "call_mean_per_ID args =
     (case args of
        [vs, gs, PyInt n_groups] \<Rightarrow>
          (case as_int_array gs of
             None \<Rightarrow> Inl TypingError
           | Some group_ids \<Rightarrow>
               (case as_f64_array vs of
                  Some fs \<Rightarrow> f64_result (mean_per_ID (\<lambda>x. x) fs group_ids n_groups)
                | None \<Rightarrow>
                    (case as_int_array vs of
                       Some is \<Rightarrow>
                         f64_result (mean_per_ID f64_of_int64 (map word_of_int is) group_ids n_groups)
                     | None \<Rightarrow> Inl TypingError)))
      | _ \<Rightarrow> Inl TypingError)"

text \<open>The choice of \<open>fn\<close>, lines 219 to 226 and 229 to 236.\<close>

definition group_fn :: "reduction \<Rightarrow> error + (pyval list \<Rightarrow> error + pyval)" where
  "group_fn function =
     (case function of
        RCallable f \<Rightarrow> Inr f
      | RName s \<Rightarrow>
          (if s = ''mean'' then Inr call_mean_per_ID
           else if s = ''sum'' then Inr call_sum_per_ID
           else Inl (ValueError (s @ '' function unknown'')))
      | RNone \<Rightarrow> Inl (ValueError ''None function unknown''))"

definition whole_fn :: "runtime \<Rightarrow> reduction \<Rightarrow> error + (pyval \<Rightarrow> error + pyval)" where
  "whole_fn rt function =
     (case function of
        RCallable f \<Rightarrow> Inr (\<lambda>a. f [a])
      | RName s \<Rightarrow>
          (if s = ''mean'' then Inr (np_mean rt)
           else if s = ''sum'' then Inr (np_sum rt)
           else Inl (ValueError (s @ '' function unknown'')))
      | RNone \<Rightarrow> Inl (ValueError ''None function unknown''))"

text \<open>\<open>conf['ids'].size\<close>.\<close>

definition ids_size :: "pyval \<Rightarrow> error + int" where
  "ids_size a = (if is_numpy a then Inr (int (np_size a)) else Inl (AttributeError ''size''))"

text \<open>The value that \<open>parse_agent_data\<close> hands to \<open>report_value\<close>: every branch of the
  method ends in that call. The copy of the raw values is the identity on values that
  nothing can change.\<close>

definition reduced_value :: "runtime \<Rightarrow> pyval \<Rightarrow> collection \<Rightarrow> directive \<Rightarrow> error + pyval" where
  "reduced_value rt vs agents conf =
     (case d_function conf of
        None \<Rightarrow> Inl (KeyError ''function'')
      | Some RNone \<Rightarrow> Inr vs
      | Some function \<Rightarrow>
          (case d_ids conf of
             Some ids_array \<Rightarrow>
               (case d_scale conf of
                  None \<Rightarrow> Inl (KeyError ''scale'')
                | Some scale \<Rightarrow>
                    seq (get_attr agents scale) (\<lambda>group_ids.
                    seq (ids_size ids_array) (\<lambda>n_groups.
                    seq (group_fn function) (\<lambda>fn.
                      fn [vs, group_ids, PyInt n_groups]))))
           | None \<Rightarrow>
               seq (whole_fn rt function) (\<lambda>fn.
                 (case d_varname conf of
                    None \<Rightarrow> Inl (KeyError ''varname'')
                  | Some varname \<Rightarrow> seq (get_attr agents varname) fn))))"

definition parse_agent_data ::
  "runtime \<Rightarrow> model \<Rightarrow> key \<Rightarrow> pyval \<Rightarrow> collection \<Rightarrow> directive \<Rightarrow> reporter
     \<Rightarrow> (error + unit) \<times> reporter" where
  "parse_agent_data rt m name vs agents conf r =
     (case reduced_value rt vs agents conf of
        Inl e \<Rightarrow> (Inl e, r)
      | Inr v \<Rightarrow> report_value rt m name v conf r)"

text \<open>The loop of line 252 over the entity ids zipped with the values.\<close>

fun split_loop ::
  "runtime \<Rightarrow> model \<Rightarrow> string \<Rightarrow> (int \<times> pyval) list \<Rightarrow> collection \<Rightarrow> directive \<Rightarrow> reporter
     \<Rightarrow> (error + unit) \<times> reporter" where
  "split_loop rt m name [] agents conf r = (Inr (), r)"
| "split_loop rt m name ((ID, admin_values) # rest) agents conf r =
     (case parse_agent_data rt m (Pair name ID) admin_values agents conf r of
        (Inl e, r1) \<Rightarrow> (Inl e, r1)
      | (Inr _, r1) \<Rightarrow> split_loop rt m name rest agents conf r1)"

text \<open>Lines 246 to 250: the collection of the directive's agent type and the attribute
  read from it.\<close>

definition agent_values :: "model \<Rightarrow> directive \<Rightarrow> error + collection \<times> pyval" where
  "agent_values m conf =
     (case m_agents m of
        None \<Rightarrow> Inl (AttributeError ''agents'')
      | Some population \<Rightarrow>
          (case d_type conf of
             None \<Rightarrow> Inl (KeyError ''type'')
           | Some ty \<Rightarrow>
               (case map_of population ty of
                  None \<Rightarrow> Inl (AttributeError ty)
                | Some agents \<Rightarrow>
                    (case d_varname conf of
                       None \<Rightarrow> Inl (KeyError ''varname'')
                     | Some varname \<Rightarrow>
                         (case get_attr agents varname of
                            Inl e \<Rightarrow>
                              Inl (AttributeError (''Trying to export '' @ [CHR 0x27] @ varname @
                                 [CHR 0x27] @ '', but no such attribute exists for agent type '' @
                                 [CHR 0x27] @ ty @ [CHR 0x27]))
                          | Inr vs \<Rightarrow> Inr (agents, vs))))))"

definition extract_agent_data ::
  "runtime \<Rightarrow> model \<Rightarrow> string \<Rightarrow> directive \<Rightarrow> reporter \<Rightarrow> (error + unit) \<times> reporter" where
  "extract_agent_data rt m name conf r =
     (case agent_values m conf of
        Inl e \<Rightarrow> (Inl e, r)
      | Inr (agents, vs) \<Rightarrow>
          if d_split conf = Some True then
            (case ids agents of
               None \<Rightarrow> (Inl (AttributeError ''ids''), r)
             | Some is \<Rightarrow>
                 (case py_iter vs of
                    Inl e \<Rightarrow> (Inl e, r)
                  | Inr rows \<Rightarrow> split_loop rt m name (zip is rows) agents conf r))
          else parse_agent_data rt m (Name name) vs agents conf r)"

section \<open>Orchestrator: step, report and the constructor\<close>

fun for_directives ::
  "runtime \<Rightarrow> model \<Rightarrow> (string \<times> directive) list \<Rightarrow> reporter \<Rightarrow> (error + unit) \<times> reporter" where
  "for_directives rt m [] r = (Inr (), r)"
| "for_directives rt m ((name, conf) # rest) r =
     (case extract_agent_data rt m name conf r of
        (Inl e, r1) \<Rightarrow> (Inl e, r1)
      | (Inr _, r1) \<Rightarrow> for_directives rt m rest r1)"

definition step :: "runtime \<Rightarrow> model \<Rightarrow> reporter \<Rightarrow> (error + unit) \<times> reporter" where
  "step rt m r =
     (let r1 = r\<lparr>timesteps := timesteps r @ [m_current_time m]\<rparr>
      in case m_config m of
           None \<Rightarrow> (Inr (), r1)
         | Some c \<Rightarrow>
             (case c_report c of
                None \<Rightarrow> (Inr (), r1)
              | Some table \<Rightarrow> for_directives rt m table r1))"

text \<open>\<open>__init__\<close>: the fields, the export folder, and one first \<open>step()\<close>.\<close>

definition init ::
  "runtime \<Rightarrow> model \<Rightarrow> string option \<Rightarrow> filesystem \<Rightarrow> (error + unit) \<times> reporter" where
  "init rt m subfolder fs =
     (let r0 = \<lparr>variables = [], timesteps = [], export_folder = [], disk = fs\<rparr>
      in case m_agents m of
           None \<Rightarrow> (Inl (NameError ''Attribute agents of model does not exists.''), r0)
         | Some _ \<Rightarrow>
             (case m_config m of
                None \<Rightarrow> (Inl (TypeError ''NoneType object is not subscriptable''), r0)
              | Some c \<Rightarrow>
                  (let folder = (case subfolder of
                                   None \<Rightarrow> c_report_folder c
                                 | Some sub \<Rightarrow> if sub = [] then c_report_folder c
                                               else path_join (c_report_folder c) sub);
                       r1 = r0\<lparr>export_folder := folder, disk := makedirs folder fs\<rparr>
                   in step rt m r1)))"

text \<open>Successive \<open>step()\<close> calls, one for each state of the model in turn, up to the first
  that raises.\<close>

fun steps :: "runtime \<Rightarrow> model list \<Rightarrow> reporter \<Rightarrow> (error + unit) \<times> reporter" where
  "steps rt [] r = (Inr (), r)"
| "steps rt (m # ms) r =
     (case step rt m r of
        (Inl e, r1) \<Rightarrow> (Inl e, r1)
      | (Inr _, r1) \<Rightarrow> steps rt ms r1)"

text \<open>The table of one name, lines 268 to 279. The dict comprehension keeps the last value
  of a time that occurs twice, at the place of the first.\<close>

definition dict_of :: "('k \<times> 'v) list \<Rightarrow> ('k \<times> 'v) list" where
  "dict_of kvs = foldl (\<lambda>d kv. AList.update (fst kv) (snd kv) d) [] kvs"

definition build_table :: "runtime \<Rightarrow> string \<Rightarrow> series \<Rightarrow> string list \<Rightarrow> error + dataframe" where
  "build_table rt name vals ts =
     (case vals of
        PerID d \<Rightarrow>
          seq (pd_from_dict rt (map (\<lambda>(i, xs). (LId i, PyList xs)) d))
            (\<lambda>df. pd_set_index rt df (map LTime ts))
      | Flat [] \<Rightarrow> Inl IndexError
      | Flat (v0 # vs) \<Rightarrow>
          if is_iterable v0
          then pd_from_dict rt (dict_of (zip (map LTime ts) (v0 # vs)))
          else pd_DataFrame rt (v0 # vs) (map LTime ts) [LName name])"

text \<open>\<open>self.model.config['report'][name]\<close>.\<close>

definition directive_of :: "model \<Rightarrow> string \<Rightarrow> error + directive" where
  "directive_of m name =
     (case m_config m of
        None \<Rightarrow> Inl (TypeError ''NoneType object is not subscriptable'')
      | Some c \<Rightarrow>
          (case c_report c of
             None \<Rightarrow> Inl (KeyError ''report'')
           | Some table \<Rightarrow>
               (case map_of table name of
                  None \<Rightarrow> Inl (KeyError name)
                | Some conf \<Rightarrow> Inr conf)))"

text \<open>The body of the loop of \<open>report\<close> for one name, lines 268 to 291.\<close>

definition report_entry ::
  "runtime \<Rightarrow> model \<Rightarrow> string \<Rightarrow> series \<Rightarrow> reporter \<Rightarrow> (error + unit) \<times> reporter" where
  "report_entry rt m name vals r =
     (case build_table rt name vals (timesteps r) of
        Inl e \<Rightarrow> (Inl e, r)
      | Inr df \<Rightarrow>
          (case directive_of m name of
             Inl e \<Rightarrow> (Inl e, r)
           | Inr conf \<Rightarrow>
               (case d_format conf of
                  None \<Rightarrow>
                    (Inl (ValueError (''Key '' @ [CHR 0x27] @ ''format'' @ [CHR 0x27] @
                                       '' not specified in config file for '' @ name)), r)
                | Some export_format \<Rightarrow>
                    (let filepath = path_join (export_folder r) (name @ ''.'' @ export_format)
                     in if export_format = ''csv'' then
                          (Inr (), write_file name filepath (FrameCsv df) r)
                        else if export_format = ''xlsx'' then
                          (Inr (), write_file name filepath (FrameXlsx df) r)
                        else if export_format = ''npy'' then
                          (Inr (), write_file name filepath (FrameNpy df) r)
                        else (Inl (ValueError (''save_to format '' @ export_format @ '' unknown'')), r)))))"

fun report_loop ::
  "runtime \<Rightarrow> model \<Rightarrow> (string \<times> series) list \<Rightarrow> reporter \<Rightarrow> (error + unit) \<times> reporter" where
  "report_loop rt m [] r = (Inr (), r)"
| "report_loop rt m ((name, vals) # rest) r =
     (case report_entry rt m name vals r of
        (Inl e, r1) \<Rightarrow> (Inl e, r1)
      | (Inr _, r1) \<Rightarrow> report_loop rt m rest r1)"

text \<open>\<open>report\<close>: \<open>report_dict\<close> is created empty, no statement of the loop stores into it,
  and it is what the method returns.\<close>

definition report ::
  "runtime \<Rightarrow> model \<Rightarrow> reporter \<Rightarrow> (error + (string \<times> dataframe) list) \<times> reporter" where
  "report rt m r =
     (let report_dict = []
      in case report_loop rt m (variables r) r of
           (Inl e, r1) \<Rightarrow> (Inl e, r1)
         | (Inr _, r1) \<Rightarrow> (Inr report_dict, r1))"

section \<open>What the claims observe\<close>

text \<open>The values buffered under a key.\<close>

definition buffered :: "key \<Rightarrow> reporter \<Rightarrow> pyval list" where
  "buffered k r =
     (case k of
        Name n \<Rightarrow> (case map_of (variables r) n of Some (Flat xs) \<Rightarrow> xs | _ \<Rightarrow> [])
      | Pair n i \<Rightarrow>
          (case map_of (variables r) n of
             Some (PerID d) \<Rightarrow> (case map_of d i of Some xs \<Rightarrow> xs | None \<Rightarrow> [])
           | _ \<Rightarrow> []))"

text \<open>The files written for a directive.\<close>

definition written_for :: "string \<Rightarrow> reporter \<Rightarrow> write_event list" where
  "written_for n r = filter (\<lambda>w. w_directive w = n) (writes (disk r))"

text \<open>An integer, a float that is not infinite, or \<open>None\<close>.\<close>

definition valid_scalar :: "pyval \<Rightarrow> bool" where
  "valid_scalar x \<longleftrightarrow> (is_int_or_float x \<or> x = PyNone) \<and> \<not> is_infinite_float x"


text \<open>The value that one \<open>step()\<close> buffers for a directive that is not split: the attribute,
  reduced, then made native.\<close>

definition step_value :: "runtime \<Rightarrow> model \<Rightarrow> directive \<Rightarrow> error + pyval" where
  "step_value rt m conf =
     seq (agent_values m conf) (\<lambda>(agents, vs).
       seq (reduced_value rt vs agents conf) native_value)"

section \<open>A small run\<close>

text \<open>One agent type \<open>farmer\<close> with two farmers, and one directive \<open>wealth\<close> that reads
  their wealth as it is.\<close>

definition example_runtime :: runtime where
  "example_runtime =
     \<lparr>cupy_imported = False,
      np_mean = (\<lambda>a. Inl (TypeError ''unsupported'')),
      np_sum = (\<lambda>a. Inl (TypeError ''unsupported'')),
      pd_from_dict = (\<lambda>kvs. Inr \<lparr>df_index = [], df_columns = map fst kvs,
                                   df_cells = map (\<lambda>kv. np_leaves (snd kv)) kvs\<rparr>),
      pd_set_index = (\<lambda>df idx. Inr (df\<lparr>df_index := idx\<rparr>)),
      pd_DataFrame = (\<lambda>vals idx cols.
         if length vals = length idx then Inr \<lparr>df_index = idx, df_columns = cols, df_cells = [vals]\<rparr>
         else Inl (ValueError ''Shape of passed values''))\<rparr>"

definition wealth_directive :: directive where
  "wealth_directive =
     \<lparr>d_type = Some ''farmer'', d_varname = Some ''wealth'', d_function = Some RNone,
      d_format = Some ''npy'', d_save = Some ''save+export'', d_initial_only = Some True,
      d_frequency = None, d_split = None, d_ids = None, d_scale = None\<rparr>"

definition example_table :: "(string \<times> directive) list" where
  "example_table = [(''wealth'', wealth_directive)]"

definition example_model :: "int \<Rightarrow> string \<Rightarrow> model" where
  "example_model k t =
     \<lparr>m_config = Some \<lparr>c_report_folder = ''report'', c_report = Some example_table\<rparr>,
      m_agents = Some [(''farmer'',
         \<lparr>attrs = [(''wealth'', NpArray [PyFloat (Num 1), PyFloat (Num 2)])], ids = Some [0, 1]\<rparr>)],
      m_current_time = t,
      m_current_timestep = k\<rparr>"

definition fresh_reporter :: reporter where
  "fresh_reporter =
     \<lparr>variables = [], timesteps = [], export_folder = ''report'',
      disk = \<lparr>dirs = [], writes = []\<rparr>\<rparr>"

section \<open>Properties of rounding\<close>

lemma rhe_floor_le: "\<lfloor>x\<rfloor> \<le> round_half_even x"
  by (simp add: round_half_even_def Let_def)

lemma rhe_le_floor_Suc: "round_half_even x \<le> \<lfloor>x\<rfloor> + 1"
  by (simp add: round_half_even_def Let_def)

lemma rhe_of_int [simp]: "round_half_even (of_int m) = m"
  by (simp add: round_half_even_def Let_def)

lemma rhe_le_int: "x \<le> of_int m \<Longrightarrow> round_half_even x \<le> m"
proof -
  assume le: "x \<le> of_int m"
  show ?thesis
  proof (cases "x = of_int m")
    case True
    then show ?thesis by simp
  next
    case False
    then have "x < of_int m" using le by simp
    then have "\<lfloor>x\<rfloor> < m" by (simp add: floor_less_iff)
    then show ?thesis using rhe_le_floor_Suc [of x] by linarith
  qed
qed

lemma rhe_ge_int: "of_int m \<le> x \<Longrightarrow> m \<le> round_half_even x"
proof -
  assume "of_int m \<le> x"
  then have "m \<le> \<lfloor>x\<rfloor>" by (simp add: le_floor_iff)
  then show ?thesis using rhe_floor_le [of x] by linarith
qed

text \<open>The scaled magnitude lies below the power of two that the bit length of its integer
  part gives.\<close>

lemma below_bitlen:
  fixes t :: rat
  assumes "0 \<le> t"
  shows "t < 2 ^ nat (bitlen \<lfloor>t\<rfloor>)"
proof (cases "0 < \<lfloor>t\<rfloor>")
  case True
  then have "\<lfloor>t\<rfloor> < 2 ^ nat (bitlen \<lfloor>t\<rfloor>)" using bitlen_bounds by blast
  then have "\<lfloor>t\<rfloor> + 1 \<le> 2 ^ nat (bitlen \<lfloor>t\<rfloor>)" by simp
  then have "(of_int (\<lfloor>t\<rfloor> + 1) :: rat) \<le> of_int (2 ^ nat (bitlen \<lfloor>t\<rfloor>))"
    by (simp only: of_int_le_iff)
  then have b: "(of_int (\<lfloor>t\<rfloor> + 1) :: rat) \<le> 2 ^ nat (bitlen \<lfloor>t\<rfloor>)"
    by (simp only: of_int_power of_int_numeral)
  have "t < of_int (\<lfloor>t\<rfloor> + 1)" by linarith
  then show ?thesis using b by (rule less_le_trans)
next
  case False
  have "0 \<le> \<lfloor>t\<rfloor>" using assms by (simp only: zero_le_floor)
  then have z: "\<lfloor>t\<rfloor> = 0" using False by linarith
  then have "t < 1" by (simp add: floor_eq_iff)
  then show ?thesis using z by simp
qed

lemma above_bitlen:
  fixes t :: rat
  assumes "0 < \<lfloor>t\<rfloor>"
  shows "2 ^ nat (bitlen \<lfloor>t\<rfloor> - 1) \<le> t"
proof -
  have "2 ^ nat (bitlen \<lfloor>t\<rfloor> - 1) \<le> \<lfloor>t\<rfloor>" using bitlen_bounds [OF assms] by blast
  then have "(of_int (2 ^ nat (bitlen \<lfloor>t\<rfloor> - 1)) :: rat) \<le> of_int \<lfloor>t\<rfloor>"
    by (simp only: of_int_le_iff)
  then have "(2 ^ nat (bitlen \<lfloor>t\<rfloor> - 1) :: rat) \<le> of_int \<lfloor>t\<rfloor>"
    by (simp only: of_int_power of_int_numeral)
  also have "\<dots> \<le> t" by (rule of_int_floor_le)
  finally show ?thesis .
qed

lemma rounded_upper:
  fixes t :: rat
  assumes "0 \<le> t"
  shows "round_half_even (t / 2 ^ nat (bitlen \<lfloor>t\<rfloor> - 53)) \<le> 2 ^ 53"
proof -
  let ?k = "nat (bitlen \<lfloor>t\<rfloor> - 53)"
  have "nat (bitlen \<lfloor>t\<rfloor>) \<le> 53 + ?k" by linarith
  then have "(2::rat) ^ nat (bitlen \<lfloor>t\<rfloor>) \<le> 2 ^ (53 + ?k)"
    by (intro power_increasing) simp_all
  with below_bitlen [OF assms] have "t < 2 ^ (53 + ?k)" by (rule less_le_trans)
  then have "t < 2 ^ 53 * 2 ^ ?k" by (simp only: power_add)
  then have "t / 2 ^ ?k < 2 ^ 53" by (simp add: divide_less_eq del: power_numeral)
  then have "t / 2 ^ ?k \<le> of_int (2 ^ 53)" by (simp del: power_numeral)
  then show ?thesis by (rule rhe_le_int)
qed

lemma rounded_lower:
  fixes t :: rat
  assumes "0 < nat (bitlen \<lfloor>t\<rfloor> - 53)"
  shows "2 ^ 52 \<le> round_half_even (t / 2 ^ nat (bitlen \<lfloor>t\<rfloor> - 53))"
proof -
  let ?k = "nat (bitlen \<lfloor>t\<rfloor> - 53)"
  have b: "54 \<le> bitlen \<lfloor>t\<rfloor>" using assms by linarith
  then have "bitlen \<lfloor>t\<rfloor> \<noteq> 0" by simp
  then have "0 < \<lfloor>t\<rfloor>" by (simp add: bitlen_eq_zero_iff)
  then have "2 ^ nat (bitlen \<lfloor>t\<rfloor> - 1) \<le> t" by (rule above_bitlen)
  moreover have "nat (bitlen \<lfloor>t\<rfloor> - 1) = 52 + ?k" using b by linarith
  ultimately have "2 ^ (52 + ?k) \<le> t" by simp
  then have "2 ^ 52 * 2 ^ ?k \<le> t" by (simp only: power_add)
  then have "2 ^ 52 \<le> t / 2 ^ ?k" by (simp add: le_divide_eq del: power_numeral)
  then have "of_int (2 ^ 52) \<le> t / 2 ^ ?k" by (simp del: power_numeral)
  then show ?thesis by (rule rhe_ge_int)
qed

lemma rounded_nonneg:
  fixes t :: rat
  assumes "0 \<le> t"
  shows "0 \<le> round_half_even (t / 2 ^ k)"
proof -
  have "of_int 0 \<le> t / 2 ^ k" using assms by simp
  then show ?thesis by (rule rhe_ge_int)
qed

text \<open>The shape of every result of rounding: a mantissa of at most 53 bits, shifted.\<close>

lemma round_f64_shape:
  "\<exists>(n::int) (k::nat). 0 \<le> n \<and> n \<le> 2 ^ 53 \<and> (0 < k \<longrightarrow> 2 ^ 52 \<le> n) \<and>
     round_f64 q = (if 2 ^ 2098 \<le> n * 2 ^ k then (if 0 < q then PInf else NInf)
                    else Num (sgn q * (of_int (n * 2 ^ k) / 2 ^ 1074)))"
proof -
  define t where "t = \<bar>q\<bar> * 2 ^ 1074"
  define k where "k = nat (bitlen \<lfloor>t\<rfloor> - 53)"
  define n where "n = round_half_even (t / 2 ^ k)"
  have t0: "0 \<le> t" by (simp add: t_def)
  have n0: "0 \<le> n" unfolding n_def using t0 by (rule rounded_nonneg)
  have nu: "n \<le> 2 ^ 53" unfolding n_def k_def using t0 by (rule rounded_upper)
  have nl: "0 < k \<longrightarrow> 2 ^ 52 \<le> n" unfolding n_def k_def using rounded_lower by blast
  have r: "round_f64 q = (if 2 ^ 2098 \<le> n * 2 ^ k then (if 0 < q then PInf else NInf)
         else Num (sgn q * (of_int (n * 2 ^ k) / 2 ^ 1074)))"
    unfolding round_f64_def Let_def n_def k_def t_def ..
  show ?thesis using n0 nu nl r by blast
qed

lemma mantissa_bound:
  fixes n :: int
  assumes "0 \<le> n" and "n \<le> 2 ^ 53" and "0 < k \<longrightarrow> 2 ^ 52 \<le> n" and "n * 2 ^ k < 2 ^ 2098"
  shows "n * 2 ^ k \<le> (2 ^ 53 - 1) * 2 ^ 2045"
proof -
  have k: "k \<le> 2045"
  proof (rule ccontr)
    assume "\<not> k \<le> 2045"
    then have k1: "2046 \<le> k" by simp
    then have "2 ^ 52 \<le> n" using assms(3) by simp
    moreover have "(2::int) ^ 2046 \<le> 2 ^ k" using k1 by (intro power_increasing) simp_all
    ultimately have "2 ^ 52 * 2 ^ 2046 \<le> n * 2 ^ k" by (intro mult_mono) simp_all
    then show False using assms(4) by simp
  qed
  show ?thesis
  proof (cases "n = 2 ^ 53")
    case True
    have "k \<noteq> 2045"
    proof
      assume "k = 2045"
      then show False using assms(4) True by simp
    qed
    then have "k \<le> 2044" using k by simp
    then have "(2::int) ^ k \<le> 2 ^ 2044" by (intro power_increasing) simp_all
    then have "n * 2 ^ k \<le> 2 ^ 53 * 2 ^ 2044" using True by simp
    then show ?thesis by simp
  next
    case False
    then have "n \<le> 2 ^ 53 - 1" using assms(2) by simp
    moreover have "(2::int) ^ k \<le> 2 ^ 2045" using k by (intro power_increasing) simp_all
    ultimately show ?thesis using assms(1) by (intro mult_mono) simp_all
  qed
qed

text \<open>A finite result of rounding is no larger than the largest float64.\<close>

lemma round_f64_bounded:
  assumes "round_f64 q = Num a"
  shows "\<bar>a\<bar> \<le> f64_max"
proof -
  obtain n :: int and k :: nat where nk: "0 \<le> n" "n \<le> 2 ^ 53" "0 < k \<longrightarrow> 2 ^ 52 \<le> n"
    and r: "round_f64 q = (if 2 ^ 2098 \<le> n * 2 ^ k then (if 0 < q then PInf else NInf)
                    else Num (sgn q * (of_int (n * 2 ^ k) / 2 ^ 1074)))"
    using round_f64_shape [of q] by blast
  have lt: "n * 2 ^ k < 2 ^ 2098" using assms r by (auto split: if_splits)
  have le: "n * 2 ^ k \<le> (2 ^ 53 - 1) * 2 ^ 2045"
    using nk lt by (rule mantissa_bound)
  have nn: "0 \<le> n * 2 ^ k" using nk(1) by simp
  have a: "a = sgn q * (of_int (n * 2 ^ k) / 2 ^ 1074)" using assms r lt by simp
  have "\<bar>a\<bar> \<le> of_int (n * 2 ^ k) / 2 ^ 1074"
  proof -
    have "\<bar>a\<bar> = \<bar>sgn q\<bar> * (of_int (n * 2 ^ k) / 2 ^ 1074)"
      using nn by (simp add: a abs_mult del: power_numeral of_int_mult of_int_power)
    also have "\<dots> \<le> 1 * (of_int (n * 2 ^ k) / 2 ^ 1074)"
      using nn by (intro mult_right_mono) (simp_all add: abs_sgn_eq del: power_numeral of_int_mult of_int_power)
    finally show ?thesis by simp
  qed
  also have "\<dots> \<le> of_int ((2 ^ 53 - 1) * 2 ^ 2045) / 2 ^ 1074"
    using le by (intro divide_right_mono) (simp_all only: of_int_le_iff, simp)
  also have "\<dots> = f64_max" by (simp add: f64_max_def)
  finally show ?thesis .
qed

text \<open>A magnitude up to the largest float64 rounds to a finite value.\<close>

lemma round_f64_finite:
  assumes "\<bar>q\<bar> \<le> f64_max"
  shows "isfinite (round_f64 q)"
proof -
  define t where "t = \<bar>q\<bar> * 2 ^ 1074"
  define k where "k = nat (bitlen \<lfloor>t\<rfloor> - 53)"
  define n where "n = round_half_even (t / 2 ^ k)"
  have t0: "0 \<le> t" by (simp add: t_def)
  have n0: "0 \<le> n" unfolding n_def using t0 by (rule rounded_nonneg)
  have nu: "n \<le> 2 ^ 53" unfolding n_def k_def using t0 by (rule rounded_upper)
  have r: "round_f64 q = (if 2 ^ 2098 \<le> n * 2 ^ k then (if 0 < q then PInf else NInf)
         else Num (sgn q * (of_int (n * 2 ^ k) / 2 ^ 1074)))"
    unfolding round_f64_def Let_def n_def k_def t_def ..
  have "t \<le> f64_max * 2 ^ 1074" unfolding t_def using assms by (intro mult_right_mono) simp_all
  also have "f64_max * 2 ^ 1074 = (2 ^ 53 - 1) * 2 ^ 2045" by (simp add: f64_max_def)
  finally have tm: "t \<le> (2 ^ 53 - 1) * 2 ^ 2045" .
  have "of_int \<lfloor>t\<rfloor> \<le> t" by (rule of_int_floor_le)
  also have "t < of_int (2 ^ 2098)" using tm by simp
  finally have "\<lfloor>t\<rfloor> < 2 ^ 2098" by (simp only: of_int_less_iff)
  then have "bitlen \<lfloor>t\<rfloor> \<le> 2098" by (simp add: bitlen_le_iff_power)
  then have k: "k \<le> 2045" unfolding k_def by linarith
  have "n * 2 ^ k < 2 ^ 2098"
  proof (cases "k = 2045")
    case True
    have "t / 2 ^ k \<le> of_int (2 ^ 53 - 1)" using tm True by (simp add: divide_le_eq)
    then have "n \<le> 2 ^ 53 - 1" unfolding n_def by (rule rhe_le_int)
    then have "n * 2 ^ k \<le> (2 ^ 53 - 1) * 2 ^ 2045" using True by simp
    then show ?thesis by simp
  next
    case False
    then have "k \<le> 2044" using k by simp
    then have "(2::int) ^ k \<le> 2 ^ 2044" by (intro power_increasing) simp_all
    then have "n * 2 ^ k \<le> 2 ^ 53 * 2 ^ 2044" using nu n0 by (intro mult_mono) simp_all
    then show ?thesis by simp
  qed
  then show ?thesis using r by simp
qed

text \<open>An integer below \<open>2 ^ 53\<close> in magnitude is a float64: rounding leaves it as it is.\<close>

lemma round_f64_of_int:
  assumes "\<bar>m\<bar> < 2 ^ 53"
  shows "round_f64 (of_int m) = Num (of_int m)"
proof (cases "m = 0")
  case True
  then show ?thesis by (simp add: round_f64_def round_half_even_def)
next
  case False
  define a where "a = \<bar>m\<bar>"
  have a0: "0 < a" and a53: "a < 2 ^ 53" using False assms by (simp_all add: a_def)
  define b where "b = bitlen a"
  have b1: "1 \<le> b" using a0 bitlen_eq_zero_iff [of a] bitlen_nonneg [of a] unfolding b_def by linarith
  have b53: "b \<le> 53" unfolding b_def using a53 by (simp add: bitlen_le_iff_power)
  define t :: rat where "t = \<bar>of_int m\<bar> * 2 ^ 1074"
  have t: "t = of_int (a * 2 ^ 1074)" by (simp add: t_def a_def)
  then have fl: "\<lfloor>t\<rfloor> = a * 2 ^ 1074" by (simp only: floor_of_int)
  have bl: "bitlen \<lfloor>t\<rfloor> = b + 1074" unfolding fl b_def using a0 by (simp only: bitlen_pow2)
  define k where "k = nat (bitlen \<lfloor>t\<rfloor> - 53)"
  define j where "j = nat (53 - b)"
  have kj: "j + k = 1074" unfolding k_def j_def bl using b1 b53 by linarith
  have split: "(2::int) ^ 1074 = 2 ^ j * 2 ^ k" by (simp only: kj [symmetric] power_add)
  have "t / 2 ^ k = of_int (a * 2 ^ j)"
  proof -
    have "t = of_int (a * 2 ^ j) * 2 ^ k"
      unfolding t by (simp only: split) simp
    then show ?thesis by simp
  qed
  then have n: "round_half_even (t / 2 ^ k) = a * 2 ^ j" by (simp only: rhe_of_int)
  have prod: "a * 2 ^ j * 2 ^ k = a * 2 ^ 1074" by (simp only: split mult.assoc)
  have small: "a * 2 ^ 1074 < 2 ^ 2098"
  proof -
    have "a * 2 ^ 1074 < 2 ^ 53 * 2 ^ 1074" using a53 by simp
    also have "\<dots> \<le> 2 ^ 2098" by simp
    finally show ?thesis .
  qed
  have "round_f64 (of_int m) = Num (sgn (of_int m) * (of_int (a * 2 ^ 1074) / 2 ^ 1074))"
    unfolding round_f64_def Let_def
    using small by (simp only: t_def [symmetric] k_def [symmetric] n prod) simp
  also have "sgn (of_int m :: rat) * (of_int (a * 2 ^ 1074) / 2 ^ 1074) = of_int m"
    by (simp add: a_def sgn_if)
  finally show ?thesis .
qed

lemma round_f64_in_range: "f64_in_range (round_f64 q)"
  by (cases "round_f64 q") (simp_all add: round_f64_bounded)

lemma f64_add_in_range: "f64_in_range (f64_add x y)"
  by (cases x; cases y) (simp_all add: round_f64_in_range)

lemma round_f64_zero [simp]: "round_f64 0 = Num 0"
  using round_f64_of_int [of 0] by simp

lemma round_f64_one [simp]: "round_f64 1 = Num 1"
  using round_f64_of_int [of 1] by simp

lemma round_f64_numeral: "numeral w < (2::int) ^ 53 \<Longrightarrow> round_f64 (numeral w) = Num (numeral w)"
  using round_f64_of_int [of "numeral w"] by simp

lemma sint_int64_range: "\<bar>sint (c :: int64)\<bar> \<le> 2 ^ 63"
  using sint_ge [of c] sint_lt [of c] by simp

lemma f64_of_int64_finite: "isfinite (f64_of_int64 c)"
proof -
  have "\<bar>of_int (sint c) :: rat\<bar> = of_int \<bar>sint c\<bar>" by simp
  also have "\<dots> \<le> of_int (2 ^ 63)" using sint_int64_range [of c] by (simp only: of_int_le_iff)
  also have "\<dots> \<le> f64_max" by (simp add: f64_max_def)
  finally show ?thesis unfolding f64_of_int64_def by (rule round_f64_finite)
qed

lemma f64_of_int64_in_range: "f64_in_range (f64_of_int64 c)"
  by (simp add: f64_of_int64_def round_f64_in_range)

lemma sint_count: "m < 2 ^ 31 \<Longrightarrow> sint (of_nat m :: int32) = int m"
  by (simp add: signed_of_nat signed_take_bit_int_eq_self)

lemma f64_of_count: "m < 2 ^ 31 \<Longrightarrow> f64_of_int32 (of_nat m) = Num (of_nat m)"
proof -
  assume m: "m < 2 ^ 31"
  then have "\<bar>int m\<bar> < 2 ^ 53" by simp
  then have "round_f64 (of_int (int m)) = Num (of_int (int m))" by (rule round_f64_of_int)
  then show ?thesis using m by (simp add: f64_of_int32_def sint_count)
qed

text \<open>Dividing a number in range by a positive count gives a number; dividing by any count
  leaves a special value special.\<close>

lemma f64_div_count_finite:
  assumes "f64_in_range (Num a)" and "0 < c"
  shows "isfinite (f64_div (Num a) (Num (of_nat c)))"
proof -
  have c1: "(1::rat) \<le> of_nat c" using assms(2) by simp
  have "\<bar>a / of_nat c\<bar> = \<bar>a\<bar> / of_nat c" by simp
  also have "\<dots> \<le> \<bar>a\<bar> / 1" using c1 by (intro divide_left_mono) simp_all
  also have "\<dots> \<le> f64_max" using assms(1) by simp
  finally have "isfinite (round_f64 (a / of_nat c))" by (rule round_f64_finite)
  then show ?thesis using assms(2) by simp
qed

lemma f64_div_count_special:
  "\<not> isfinite x \<Longrightarrow> \<not> isfinite (f64_div x (Num (of_nat c)))"
  by (cases x) simp_all

text \<open>Three checks of the rounding: the sum of two large numbers overflows, an int64 above
  \<open>2 ^ 53\<close> loses its last bit, and a tie goes to the even mantissa.\<close>

lemma round_f64_eval:
  assumes "2 ^ (52 + k) \<le> \<bar>q\<bar> * 2 ^ 1074" and "\<bar>q\<bar> * 2 ^ 1074 < 2 ^ (53 + k)"
  shows "round_f64 q =
     (let n = round_half_even (\<bar>q\<bar> * 2 ^ 1074 / 2 ^ k)
      in if 2 ^ 2098 \<le> n * 2 ^ k then (if 0 < q then PInf else NInf)
         else Num (sgn q * (of_int (n * 2 ^ k) / 2 ^ 1074)))"
proof -
  define t where "t = \<bar>q\<bar> * 2 ^ 1074"
  have "of_int (2 ^ (52 + k)) \<le> t" using assms(1) by (simp add: t_def)
  then have lo: "2 ^ (52 + k) \<le> \<lfloor>t\<rfloor>" by (simp only: le_floor_iff)
  have "t < of_int (2 ^ (53 + k))" using assms(2) by (simp add: t_def)
  then have hi: "\<lfloor>t\<rfloor> < 2 ^ (53 + k)" by (simp only: floor_less_iff)
  have "bitlen \<lfloor>t\<rfloor> \<le> 53 + int k" using hi by (simp add: bitlen_le_iff_power nat_add_distrib)
  moreover have "\<not> bitlen \<lfloor>t\<rfloor> \<le> 52 + int k"
    using lo by (simp add: bitlen_le_iff_power nat_add_distrib)
  ultimately have "nat (bitlen \<lfloor>t\<rfloor> - 53) = k" by linarith
  then show ?thesis unfolding round_f64_def Let_def t_def [symmetric] by simp
qed

lemma rhe_numeral [simp]: "round_half_even (numeral w) = numeral w"
  using rhe_of_int [of "numeral w"] by simp

lemma f64_add_overflows: "f64_add (Num (2 ^ 1023)) (Num (2 ^ 1023)) = PInf"
  by (simp add: round_f64_eval [where k = 2046] Let_def)

lemma f64_of_int64_rounds: "f64_of_int64 (2 ^ 53 + 1) = Num (2 ^ 53)"
proof -
  have "\<lfloor>(9007199254740993::rat) / 2\<rfloor> = 4503599627370496" by (simp add: floor_eq_iff)
  then show ?thesis
    by (simp add: f64_of_int64_def round_f64_eval [where k = 1075] round_half_even_def Let_def)
qed

lemma f64_add_rounds:
  "f64_add (Num (3602879701896397 / 2 ^ 55)) (Num (3602879701896397 / 2 ^ 54)) =
     Num (5404319552844596 / 2 ^ 54)"
proof -
  have "\<lfloor>(10808639105689191::rat) / 2\<rfloor> = 5404319552844595" by (simp add: floor_eq_iff)
  then show ?thesis
    by (simp add: round_f64_eval [where k = 1020] round_half_even_def Let_def)
qed

section \<open>Properties of the group reducers\<close>

lemma np_index_in_range: "0 \<le> g \<Longrightarrow> g < int n \<Longrightarrow> np_index g n = Some (nat g)"
  by (simp add: np_index_def)

lemma sum_loop_in_range:
  "\<forall>p\<in>set ps. 0 \<le> snd p \<and> snd p < n \<Longrightarrow> n = int (length acc) \<Longrightarrow>
   \<exists>acc'. sum_loop ps n acc = Inr acc' \<and> length acc' = length acc \<and>
     (\<forall>k<length acc. acc' ! k = foldl (+) (acc ! k) (map fst (filter (\<lambda>p. snd p = int k) ps)))"
proof (induction ps arbitrary: acc)
  case Nil
  then show ?case by simp
next
  case (Cons p ps)
  obtain v g where p: "p = (v, g)" by (cases p)
  from Cons.prems p have g: "0 \<le> g" "g < int (length acc)" and n: "n = int (length acc)" by auto
  let ?acc = "acc[nat g := acc ! nat g + v]"
  have "\<forall>p\<in>set ps. 0 \<le> snd p \<and> snd p < n" using Cons.prems by simp
  moreover have "n = int (length ?acc)" using n by simp
  ultimately obtain acc' where a: "sum_loop ps n ?acc = Inr acc'" "length acc' = length ?acc"
    "\<forall>k<length ?acc. acc' ! k = foldl (+) (?acc ! k) (map fst (filter (\<lambda>p. snd p = int k) ps))"
    using Cons.IH [of ?acc] by blast
  have step: "sum_loop (p # ps) n acc = sum_loop ps n ?acc"
    using g n p by (simp add: np_index_in_range)
  have "\<forall>k<length acc. acc' ! k = foldl (+) (acc ! k) (map fst (filter (\<lambda>p. snd p = int k) (p # ps)))"
  proof (intro allI impI)
    fix k assume k: "k < length acc"
    show "acc' ! k = foldl (+) (acc ! k) (map fst (filter (\<lambda>p. snd p = int k) (p # ps)))"
    proof (cases "g = int k")
      case True
      then have "nat g = k" by simp
      then show ?thesis using a(3) k p True by simp
    next
      case False
      then have "nat g \<noteq> k" using g by auto
      then show ?thesis using a(3) k p False by simp
    qed
  qed
  then show ?case using step a by simp
qed

lemma sum_loop_assert:
  "(v, g) \<in> set ps \<Longrightarrow> \<not> g < n \<Longrightarrow> \<forall>p\<in>set ps. 0 \<le> snd p \<Longrightarrow> n = int (length acc) \<Longrightarrow>
   sum_loop ps n acc = Inl AssertionError"
proof (induction ps arbitrary: acc)
  case Nil
  then show ?case by simp
next
  case (Cons p ps)
  obtain w h where p: "p = (w, h)" by (cases p)
  show ?case
  proof (cases "h < n")
    case False
    then show ?thesis using p by simp
  next
    case True
    then have mem: "(v, g) \<in> set ps" using Cons.prems p by auto
    have h: "0 \<le> h" using Cons.prems p by simp
    let ?acc = "acc[nat h := acc ! nat h + w]"
    have "sum_loop ps n ?acc = Inl AssertionError"
      using Cons.IH [of ?acc] mem Cons.prems by simp
    then show ?thesis using p True h Cons.prems by (simp add: np_index_in_range)
  qed
qed

lemma mean_loop_split:
  "length c = length s \<Longrightarrow>
   mean_loop ps n c s =
     (case sum_loop (map (\<lambda>p. (1, snd p)) ps) n c of
        Inl e \<Rightarrow> Inl e
      | Inr c' \<Rightarrow> (case sum_loop ps n s of Inl e \<Rightarrow> Inl e | Inr s' \<Rightarrow> Inr (c', s')))"
proof (induction ps arbitrary: c s)
  case Nil
  then show ?case by simp
next
  case (Cons p ps)
  obtain v g where p: "p = (v, g)" by (cases p)
  show ?case
  proof (cases "g < n")
    case False
    then show ?thesis using p by simp
  next
    case True
    show ?thesis
    proof (cases "np_index g (length c)")
      case None
      then show ?thesis using p True Cons.prems by simp
    next
      case (Some j)
      then show ?thesis using p True Cons.prems Cons.IH [of "c[j := c ! j + 1]" "s[j := s ! j + v]"]
        by (simp split: sum.splits)
    qed
  qed
qed

lemma foldl_ones: "foldl (+) (c::'a::semiring_1) (replicate m 1) = c + of_nat m"
  by (induction m arbitrary: c) (simp_all add: ac_simps)

lemma map_fst_ones: "map fst (filter (\<lambda>p. snd p = k) (map (\<lambda>p. (1::'b::one, snd p)) ps))
   = replicate (length (filter (\<lambda>p. snd p = k) ps)) (1::'b)"
  by (induction ps) auto

lemma filter_zip_count: "length V = length G \<Longrightarrow>
   length (filter (\<lambda>p. snd p = k) (zip V G)) = card {i. i < length G \<and> G ! i = k}"
proof -
  assume l: "length V = length G"
  have "length (filter (\<lambda>p. snd p = k) (zip V G)) = length (filter (\<lambda>g. g = k) (map snd (zip V G)))"
    by (simp add: filter_map comp_def)
  also have "\<dots> = length (filter (\<lambda>g. g = k) G)" using l by simp
  also have "\<dots> = card {i. i < length G \<and> G ! i = k}" by (simp add: length_filter_conv_card)
  finally show ?thesis .
qed

lemma foldl_sum_list: "foldl (+) (a::'a::comm_monoid_add) xs = a + sum_list xs"
  by (induction xs arbitrary: a) (simp_all add: add.assoc)

lemma sum_list_filter_zip:
  fixes V :: "'a::comm_monoid_add list"
  assumes "length V = length G"
  shows "sum_list (map fst (filter (\<lambda>p. snd p = k) (zip V G))) = (\<Sum>i | i < length V \<and> G ! i = k. V ! i)"
proof -
  have "sum_list (map fst (filter (\<lambda>p. snd p = k) (zip V G)))
      = sum_list (map (\<lambda>p. if snd p = k then fst p else 0) (zip V G))"
    by (simp add: sum_list_map_filter')
  also have "\<dots> = (\<Sum>i = 0..<length (zip V G). if snd (zip V G ! i) = k then fst (zip V G ! i) else 0)"
    by (simp add: sum_list_sum_nth)
  also have "\<dots> = (\<Sum>i = 0..<length V. if G ! i = k then V ! i else 0)"
    using assms by (intro sum.cong) auto
  also have "\<dots> = (\<Sum>i \<in> {i \<in> {0..<length V}. G ! i = k}. V ! i)"
    by (simp add: sum.inter_filter [symmetric])
  also have "{i \<in> {0..<length V}. G ! i = k} = {i. i < length V \<and> G ! i = k}" by auto
  finally show ?thesis .
qed

lemma sum_per_ID_in_range:
  assumes "length V = length G" and "\<forall>g\<in>set G. 0 \<le> g \<and> g < N" and "0 \<le> N"
  shows "\<exists>S. sum_per_ID V G N = Inr S \<and> length S = nat N \<and>
     (\<forall>k<nat N. S ! k = foldl (+) 0 (map fst (filter (\<lambda>p. snd p = int k) (zip V G))))"
proof -
  have "\<forall>p\<in>set (zip V G). 0 \<le> snd p \<and> snd p < N"
    using assms(2) by (auto dest: set_zip_rightD)
  moreover have "N = int (length (replicate (nat N) (0::'a)))" using assms(3) by simp
  ultimately obtain S where "sum_loop (zip V G) N (replicate (nat N) (0::'a)) = Inr S"
    "length S = length (replicate (nat N) (0::'a))"
    "\<forall>k<length (replicate (nat N) (0::'a)). S ! k =
        foldl (+) (replicate (nat N) (0::'a) ! k) (map fst (filter (\<lambda>p. snd p = int k) (zip V G)))"
    using sum_loop_in_range [of "zip V G" N "replicate (nat N) (0::'a)"] by blast
  then show ?thesis using assms(1,3) by (simp add: sum_per_ID_def)
qed

lemma mean_per_ID_in_range:
  assumes "length V = length G" and "\<forall>g\<in>set G. 0 \<le> g \<and> g < N" and "0 \<le> N"
    and "sum_per_ID V G N = Inr S"
  shows "\<exists>M. mean_per_ID to_f64 V G N = Inr M \<and> length M = nat N \<and>
     (\<forall>k<nat N. M ! k = f64_div (to_f64 (S ! k))
         (f64_of_int32 (of_nat (card {i. i < length G \<and> G ! i = int k}))))"
proof -
  let ?ones = "map (\<lambda>p. (1::int32, snd p)) (zip V G)"
  have ones: "?ones = zip (replicate (length G) 1) G"
    using assms(1) by (induction V G rule: list_induct2) simp_all
  have "\<exists>C. sum_per_ID (replicate (length G) (1::int32)) G N = Inr C \<and> length C = nat N \<and>
     (\<forall>k<nat N. C ! k = foldl (+) 0 (map fst (filter (\<lambda>p. snd p = int k) (zip (replicate (length G) (1::int32)) G))))"
    using assms(2,3) by (intro sum_per_ID_in_range) simp_all
  then obtain C where C: "sum_loop ?ones N (replicate (nat N) 0) = Inr C" "length C = nat N"
    "\<forall>k<nat N. C ! k = foldl (+) 0 (map fst (filter (\<lambda>p. snd p = int k) ?ones))"
    using assms(3) by (auto simp: sum_per_ID_def ones)
  have S: "sum_loop (zip V G) N (replicate (nat N) 0) = Inr S"
    using assms(1,3,4) by (simp add: sum_per_ID_def)
  have lenS: "length S = nat N"
    using sum_per_ID_in_range [OF assms(1,2,3)] assms(4) by auto
  have loop: "mean_loop (zip V G) N (replicate (nat N) 0) (replicate (nat N) 0) = Inr (C, S)"
    by (simp add: mean_loop_split C S)
  have cnt: "C ! k = of_nat (card {i. i < length G \<and> G ! i = int k})" if "k < nat N" for k
  proof -
    have "C ! k = foldl (+) 0 (replicate (length (filter (\<lambda>p. snd p = int k) (zip V G))) 1)"
      using C(3) that by (simp add: map_fst_ones)
    then show ?thesis using assms(1) by (simp add: foldl_ones filter_zip_count)
  qed
  have "mean_per_ID to_f64 V G N = Inr (map2 (\<lambda>s c. f64_div (to_f64 s) (f64_of_int32 c)) S C)"
    using assms(1,3) loop by (simp add: mean_per_ID_def)
  then show ?thesis using lenS C(2) cnt by simp
qed

lemma group_values_by_index:
  assumes "length V = length G"
  shows "map fst (filter (\<lambda>p. snd p = k) (zip V G)) =
         map (\<lambda>i. V ! i) (filter (\<lambda>i. G ! i = k) [0..<length V])"
proof -
  have "zip V G = map (\<lambda>i. (V ! i, G ! i)) [0..<length V]"
    using assms by (intro nth_equalityI) simp_all
  then have "map fst (filter (\<lambda>p. snd p = k) (zip V G)) =
      map fst (filter (\<lambda>p. snd p = k) (map (\<lambda>i. (V ! i, G ! i)) [0..<length V]))"
    by simp
  also have "\<dots> = map (\<lambda>i. V ! i) (filter (\<lambda>i. G ! i = k) [0..<length V])"
    by (simp add: filter_map comp_def)
  finally show ?thesis .
qed

text \<open>For a type whose addition is a commutative monoid, the unbounded integers or the
  integers modulo \<open>2 ^ 64\<close> of int64, the order of the additions does not matter.\<close>

lemma sum_per_ID_monoid_sum:
  fixes V :: "'a::comm_monoid_add list"
  assumes "length V = length G" and "\<forall>g\<in>set G. 0 \<le> g \<and> g < N" and "0 \<le> N"
    and "sum_per_ID V G N = Inr S" and "g < nat N"
  shows "S ! g = (\<Sum>i | i < length V \<and> G ! i = int g. V ! i)"
proof -
  have "S ! g = foldl (+) 0 (map fst (filter (\<lambda>p. snd p = int g) (zip V G)))"
    using sum_per_ID_in_range [OF assms(1,2,3)] assms(4,5) by auto
  then show ?thesis using assms(1) by (simp add: foldl_sum_list sum_list_filter_zip)
qed

text \<open>
  C5, as amended. For value arrays V and group-id arrays G of equal length with every
  group id in [0, N), sum_per_ID returns an array of length N whose slot g is the sum of
  the V[i] with G[i] = g, added from left to right in the order of the indices, starting
  from zero, in the arithmetic of the array's dtype (which wraps for int64 and rounds for
  float64); it is the zero of the dtype when there is no such index; and
  sum_per_ID([1,2,3,4], [0,1,0,1], 2) = [4,6].
\<close>

theorem sum_per_ID_dtype_sum:
  fixes V :: "'a::{zero,plus} list"
  assumes "length V = length G" and "\<forall>g\<in>set G. 0 \<le> g \<and> g < N" and "0 \<le> N"
  shows "\<exists>S. sum_per_ID V G N = Inr S \<and> length S = nat N \<and>
     (\<forall>g<nat N.
        S ! g = foldl (+) 0 (map (\<lambda>i. V ! i) (filter (\<lambda>i. G ! i = int g) [0..<length V])) \<and>
        ((\<forall>i<length V. G ! i \<noteq> int g) \<longrightarrow> S ! g = 0)) \<and>
     sum_per_ID [1, 2, 3, 4 :: int64] [0, 1, 0, 1] 2 = Inr [4, 6]"
proof -
  obtain S where S: "sum_per_ID V G N = Inr S" "length S = nat N"
    "\<forall>k<nat N. S ! k = foldl (+) 0 (map fst (filter (\<lambda>p. snd p = int k) (zip V G)))"
    using sum_per_ID_in_range [OF assms] by blast
  have eq: "S ! g = foldl (+) 0 (map (\<lambda>i. V ! i) (filter (\<lambda>i. G ! i = int g) [0..<length V]))"
    if "g < nat N" for g
    using S(3) that by (simp add: group_values_by_index [OF assms(1)])
  have zero: "S ! g = 0" if g: "g < nat N" and none: "\<forall>i<length V. G ! i \<noteq> int g" for g
  proof -
    have "filter (\<lambda>i. G ! i = int g) [0..<length V] = []"
      using none by (simp add: filter_empty_conv)
    then show ?thesis using eq [OF g] by simp
  qed
  have "sum_per_ID [1, 2, 3, 4 :: int64] [0, 1, 0, 1] 2 = Inr [4, 6]"
    by (simp add: sum_per_ID_def np_index_def eval_nat_numeral)
  then show ?thesis using S(1,2) eq zero by blast
qed

theorem sum_per_ID_dtype_sum_witness:
  "sum_per_ID [5, 7, 11 :: int64] [2, 0, 2] 3 = Inr [7, 0, 16] \<and>
   sum_per_ID [Num 5, PInf, Num 11] [2, 0, 2] 3 = Inr [PInf, Num 0, Num 16]"
proof -
  have "\<exists>S. sum_per_ID [5, 7, 11 :: int64] [2, 0, 2] 3 = Inr S \<and> length S = nat 3 \<and>
     (\<forall>g<nat 3.
        S ! g = foldl (+) 0 (map (\<lambda>i. [5, 7, 11 :: int64] ! i)
                  (filter (\<lambda>i. [2, 0, 2 :: int] ! i = int g) [0..<length [5, 7, 11 :: int64]])) \<and>
        ((\<forall>i<length [5, 7, 11 :: int64]. [2, 0, 2 :: int] ! i \<noteq> int g) \<longrightarrow> S ! g = 0)) \<and>
     sum_per_ID [1, 2, 3, 4 :: int64] [0, 1, 0, 1] 2 = Inr [4, 6]"
    by (rule sum_per_ID_dtype_sum) simp_all
  moreover have "sum_per_ID [5, 7, 11 :: int64] [2, 0, 2] 3 = Inr [7, 0, 16]"
    by (simp add: sum_per_ID_def np_index_def eval_nat_numeral)
  moreover have "sum_per_ID [Num 5, PInf, Num 11] [2, 0, 2] 3 = Inr [PInf, Num 0, Num 16]"
    by (simp add: sum_per_ID_def np_index_def eval_nat_numeral zero_float64_def plus_float64_def
        round_f64_numeral)
  ultimately show ?thesis by simp
qed

text \<open>
  C5 as stated fails: the sum of an int64 array wraps around. The two values of the one
  group add up to \<open>2 ^ 63\<close>; the slot holds \<open>- 2 ^ 63\<close>.
\<close>

theorem sum_per_ID_wraps_counterexample:
  "sum_per_ID [9223372036854775807, 1 :: int64] [0, 0] 1 = Inr [9223372036854775808] \<and>
   sint (9223372036854775808 :: int64) = - 9223372036854775808 \<and>
   sint (9223372036854775807 :: int64) + sint (1 :: int64) = 9223372036854775808"
  by (simp add: sum_per_ID_def np_index_def)

text \<open>The sum of a group that is not empty is the result of an addition.\<close>

lemma foldl_last_add:
  "xs \<noteq> [] \<Longrightarrow> \<exists>x y. foldl (+) (z::'a::plus) xs = x + y"
  by (cases xs rule: rev_cases) auto

text \<open>
  C6, as amended. For arrays of equal length below 2^31 (the range of the int32 counters)
  with every group id in [0, N), slot g of mean_per_ID is slot g of sum_per_ID, converted
  to float64, divided in float64 by the number of indices i with G[i] = g. It is non-finite
  exactly when that number is zero or the sum of the group is itself non-finite; for a dtype
  whose values all convert to finite numbers, as int64, exactly when that number is zero.
\<close>

theorem mean_per_ID_quotient:
  assumes "length V = length G" and "\<forall>g\<in>set G. 0 \<le> g \<and> g < N" and "0 \<le> N"
    and "length V < 2 ^ 31" and "to_f64 0 = Num 0"
    and "\<forall>x y. f64_in_range (to_f64 (x + y))"
  shows "\<exists>S M. sum_per_ID V G N = Inr S \<and> mean_per_ID to_f64 V G N = Inr M \<and> length M = nat N \<and>
     (\<forall>g<nat N.
        M ! g = f64_div (to_f64 (S ! g)) (Num (of_nat (card {i. i < length G \<and> G ! i = int g}))) \<and>
        (\<not> isfinite (M ! g) \<longleftrightarrow>
           card {i. i < length G \<and> G ! i = int g} = 0 \<or> \<not> isfinite (to_f64 (S ! g))) \<and>
        ((\<forall>x. isfinite (to_f64 x)) \<longrightarrow>
           (\<not> isfinite (M ! g) \<longleftrightarrow> card {i. i < length G \<and> G ! i = int g} = 0)))"
proof -
  obtain S where S: "sum_per_ID V G N = Inr S" "length S = nat N"
    "\<forall>k<nat N. S ! k = foldl (+) 0 (map fst (filter (\<lambda>p. snd p = int k) (zip V G)))"
    using sum_per_ID_in_range [OF assms(1,2,3)] by blast
  obtain M where M: "mean_per_ID to_f64 V G N = Inr M" "length M = nat N"
    "\<forall>k<nat N. M ! k = f64_div (to_f64 (S ! k))
         (f64_of_int32 (of_nat (card {i. i < length G \<and> G ! i = int k})))"
    using mean_per_ID_in_range [OF assms(1,2,3) S(1)] by blast
  have bound: "card {i. i < length G \<and> G ! i = int g} < 2 ^ 31" for g
  proof -
    have "card {i. i < length G \<and> G ! i = int g} \<le> card {..<length G}"
      by (intro card_mono) auto
    then show ?thesis using assms(1,4) by simp
  qed
  have q: "M ! g = f64_div (to_f64 (S ! g)) (Num (of_nat (card {i. i < length G \<and> G ! i = int g})))"
    if "g < nat N" for g
    using M(3) that by (simp add: f64_of_count [OF bound])
  have iff: "\<not> isfinite (M ! g) \<longleftrightarrow>
           card {i. i < length G \<and> G ! i = int g} = 0 \<or> \<not> isfinite (to_f64 (S ! g))"
    if g: "g < nat N" for g
  proof -
    define c where "c = card {i. i < length G \<and> G ! i = int g}"
    define vs where "vs = map fst (filter (\<lambda>p. snd p = int g) (zip V G))"
    have len: "length vs = c" unfolding vs_def c_def using assms(1) by (simp add: filter_zip_count)
    have Sg: "S ! g = foldl (+) 0 vs" unfolding vs_def using S(3) g by simp
    have Mg: "M ! g = f64_div (to_f64 (S ! g)) (Num (of_nat c))" unfolding c_def by (rule q [OF g])
    have "\<not> isfinite (M ! g) \<longleftrightarrow> c = 0 \<or> \<not> isfinite (to_f64 (S ! g))"
    proof (cases "c = 0")
      case True
      then have "vs = []" using len by simp
      then have "S ! g = 0" using Sg by simp
      then have "M ! g = NaN" using Mg True assms(5) by simp
      then show ?thesis using True by simp
    next
      case False
      then have "vs \<noteq> []" using len by auto
      then obtain x y where "S ! g = x + y" using foldl_last_add Sg by metis
      then have range: "f64_in_range (to_f64 (S ! g))" using assms(6) by simp
      show ?thesis
      proof (cases "isfinite (to_f64 (S ! g))")
        case True
        then obtain a where a: "to_f64 (S ! g) = Num a" by (cases "to_f64 (S ! g)") simp_all
        have "isfinite (f64_div (Num a) (Num (of_nat c)))"
          using range False unfolding a by (intro f64_div_count_finite) simp_all
        then show ?thesis using Mg a False by simp
      next
        case nf: False
        then have "\<not> isfinite (f64_div (to_f64 (S ! g)) (Num (of_nat c)))"
          by (rule f64_div_count_special)
        then show ?thesis using Mg nf by simp
      qed
    qed
    then show ?thesis unfolding c_def .
  qed
  show ?thesis using S(1) M(1,2) q iff by blast
qed

theorem mean_per_ID_quotient_witness:
  "mean_per_ID f64_of_int64 [1, 2, 3, 4 :: int64] [0, 1, 0, 1] 3 = Inr [Num 2, Num 3, NaN] \<and>
   (\<exists>S M. sum_per_ID [Num 1, PInf, Num 3] [0, 1, 0] 3 = Inr S \<and>
      mean_per_ID (\<lambda>x. x) [Num 1, PInf, Num 3] [0, 1, 0] 3 = Inr M \<and>
      isfinite (M ! 0) \<and> \<not> isfinite (M ! 1) \<and> \<not> isfinite (M ! 2))"
proof -
  let ?V = "[1, 2, 3, 4 :: int64]" and ?G = "[0, 1, 0, 1 :: int]"
  have "\<exists>S M. sum_per_ID ?V ?G 3 = Inr S \<and> mean_per_ID f64_of_int64 ?V ?G 3 = Inr M \<and>
      length M = nat 3 \<and>
      (\<forall>g<nat 3.
        M ! g = f64_div (f64_of_int64 (S ! g))
           (Num (of_nat (card {i. i < length ?G \<and> ?G ! i = int g}))) \<and>
        (\<not> isfinite (M ! g) \<longleftrightarrow>
           card {i. i < length ?G \<and> ?G ! i = int g} = 0 \<or> \<not> isfinite (f64_of_int64 (S ! g))) \<and>
        ((\<forall>x. isfinite (f64_of_int64 x)) \<longrightarrow>
           (\<not> isfinite (M ! g) \<longleftrightarrow> card {i. i < length ?G \<and> ?G ! i = int g} = 0)))"
    by (rule mean_per_ID_quotient) (simp_all add: f64_of_int64_def f64_of_int64_in_range [unfolded f64_of_int64_def] round_f64_in_range)
  moreover have "mean_per_ID f64_of_int64 ?V ?G 3 = Inr [Num 2, Num 3, NaN]"
    by (simp add: mean_per_ID_def np_index_def f64_of_int64_def f64_of_int32_def eval_nat_numeral
        round_f64_numeral)
  moreover
  let ?W = "[Num 1, PInf, Num 3]" and ?H = "[0, 1, 0 :: int]"
  have "\<exists>S M. sum_per_ID ?W ?H 3 = Inr S \<and> mean_per_ID (\<lambda>x. x) ?W ?H 3 = Inr M \<and>
      length M = nat 3 \<and>
      (\<forall>g<nat 3.
        M ! g = f64_div (S ! g)
           (Num (of_nat (card {i. i < length ?H \<and> ?H ! i = int g}))) \<and>
        (\<not> isfinite (M ! g) \<longleftrightarrow>
           card {i. i < length ?H \<and> ?H ! i = int g} = 0 \<or> \<not> isfinite (S ! g)) \<and>
        ((\<forall>x::float64. isfinite x) \<longrightarrow>
           (\<not> isfinite (M ! g) \<longleftrightarrow> card {i. i < length ?H \<and> ?H ! i = int g} = 0)))"
    by (rule mean_per_ID_quotient) (simp_all add: zero_float64_def plus_float64_def f64_add_in_range)
  moreover have "sum_per_ID ?W ?H 3 = Inr [Num 4, PInf, Num 0]"
    by (simp add: sum_per_ID_def np_index_def eval_nat_numeral zero_float64_def plus_float64_def
        round_f64_numeral)
  moreover have "mean_per_ID (\<lambda>x. x) ?W ?H 3 = Inr [Num 2, PInf, NaN]"
    by (simp add: mean_per_ID_def np_index_def f64_of_int32_def eval_nat_numeral
        zero_float64_def plus_float64_def round_f64_numeral)
  ultimately show ?thesis by simp
qed

text \<open>
  C6 as stated fails: a group with one member whose value is infinite has an infinite,
  hence non-finite, mean although its count is not zero.
\<close>

theorem mean_per_ID_nonfinite_counterexample:
  "mean_per_ID (\<lambda>x. x) [PInf] [0] 1 = Inr [PInf] \<and> \<not> isfinite ([PInf] ! 0) \<and>
   card {i. i < length [0 :: int] \<and> [0 :: int] ! i = 0} \<noteq> 0"
proof -
  have "{i. i < length [0 :: int] \<and> [0 :: int] ! i = 0} = {0}" by auto
  then show ?thesis
    by (simp add: mean_per_ID_def np_index_def f64_of_int32_def zero_float64_def plus_float64_def)
qed

lemma reducers_reject_length_mismatch:
  "length V \<noteq> length G \<Longrightarrow>
   sum_per_ID V G N = Inl AssertionError \<and> mean_per_ID to_f64 V G N = Inl AssertionError"
  by (simp add: sum_per_ID_def mean_per_ID_def)

lemma reducers_reject_large_id:
  assumes "length V = length G" and "0 \<le> N" and "\<forall>g\<in>set G. 0 \<le> g" and "g \<in> set G" and "\<not> g < N"
  shows "sum_per_ID V G N = Inl AssertionError \<and> mean_per_ID to_f64 V G N = Inl AssertionError"
proof -
  from assms(1,4) obtain v where v: "(v, g) \<in> set (zip V G)"
    by (metis in_set_impl_in_set_zip2)
  have nn: "\<forall>p\<in>set (zip V G). 0 \<le> snd p" using assms(3) by (auto dest: set_zip_rightD)
  have s: "sum_loop (zip V G) N (replicate (nat N) 0) = Inl AssertionError"
    using sum_loop_assert [OF v assms(5) nn, of "replicate (nat N) 0"] assms(2) by simp
  have v1: "(1, g) \<in> set (map (\<lambda>p. (1::int32, snd p)) (zip V G))" using v by force
  have nn1: "\<forall>p\<in>set (map (\<lambda>p. (1::int32, snd p)) (zip V G)). 0 \<le> snd p" using nn by simp
  have c: "sum_loop (map (\<lambda>p. (1::int32, snd p)) (zip V G)) N (replicate (nat N) 0) = Inl AssertionError"
    using sum_loop_assert [OF v1 assms(5) nn1, of "replicate (nat N) 0"] assms(2) by simp
  have "mean_loop (zip V G) N (replicate (nat N) 0) (replicate (nat N) 0) = Inl AssertionError"
    by (simp add: mean_loop_split c)
  then show ?thesis using s assms(1,2) by (simp add: sum_per_ID_def mean_per_ID_def)
qed

text \<open>
  C3 at a negative group id: both reducers assert only \<open>group_id < n_groups\<close>, the index
  -1 counts from the end of the array, and both return a result.
\<close>

theorem reducers_accept_negative_id:
  "sum_per_ID [1 :: int64] [- 1] 2 = Inr [0, 1] \<and>
   mean_per_ID f64_of_int64 [1 :: int64] [- 1] 2 = Inr [NaN, Num 1]"
  by (simp add: sum_per_ID_def mean_per_ID_def np_index_def f64_of_int64_def f64_of_int32_def
      eval_nat_numeral)

section \<open>Properties of the exporter\<close>

lemma makedirs_writes: "writes (makedirs folder fs) = writes fs"
  by (simp add: makedirs_def)

lemma makedirs_dirs: "folder \<in> set (dirs (makedirs folder fs))"
  by (simp add: makedirs_def)

lemma makedirs_new: "folder \<notin> set (dirs fs) \<Longrightarrow> dirs (makedirs folder fs) = dirs fs @ [folder]"
  by (simp add: makedirs_def)

lemma export_value_memory:
  "export_value rt k v conf r = (res, r') \<Longrightarrow>
   variables r' = variables r \<and> timesteps r' = timesteps r \<and> export_folder r' = export_folder r"
  by (auto simp: export_value_def Let_def write_file_def
      split: key.splits option.splits sum.splits if_splits)

lemma export_value_written_other:
  "export_value rt k v conf r = (res, r') \<Longrightarrow> key_name k \<noteq> n \<Longrightarrow> written_for n r' = written_for n r"
  by (auto simp: export_value_def Let_def write_file_def written_for_def makedirs_writes
      split: key.splits option.splits sum.splits if_splits)

lemma export_value_written_ok:
  "export_value rt k v conf r = (Inr u, r') \<Longrightarrow>
   \<exists>w. written_for (key_name k) r' = written_for (key_name k) r @ [w]"
  by (auto simp: export_value_def Let_def write_file_def written_for_def makedirs_writes
      split: key.splits option.splits sum.splits if_splits)

lemma export_value_tuple: "fst (export_value rt (Pair n i) v conf r) \<noteq> Inr ()"
  by (simp add: export_value_def)

text \<open>The name of the file that a successful export writes.\<close>

lemma export_value_path:
  "export_value rt (Name n) v conf r = (Inr u, r') \<Longrightarrow>
   \<exists>ext c. writes (disk r') = writes (disk r) @
      [\<lparr>w_directive = n,
        w_path = path_join (path_join (export_folder r) n)
           ((if d_frequency conf = Some ''initial_only'' then ''initial''
             else str_remove CHR '':'' (str_remove CHR ''-'' (last (timesteps r)))) @ ext),
        w_content = c\<rparr>] \<and> (ext = ''.npy'' \<or> ext = ''.csv'')"
  by (auto simp: export_value_def Let_def write_file_def makedirs_writes export_filename_def
      split: option.splits sum.splits if_splits)

section \<open>Properties of the store\<close>

lemma append_value_disk:
  "append_value k v r = (res, r') \<Longrightarrow>
   disk r' = disk r \<and> timesteps r' = timesteps r \<and> export_folder r' = export_folder r"
  by (auto simp: append_value_def split: key.splits option.splits series.splits)

lemma append_value_other:
  "append_value k v r = (res, r') \<Longrightarrow> key_name k \<noteq> n \<Longrightarrow>
   map_of (variables r') n = map_of (variables r) n"
  by (auto simp: append_value_def update_conv' split: key.splits option.splits series.splits)

lemma append_value_failed: "append_value k v r = (Inl e, r') \<Longrightarrow> r' = r"
  by (auto simp: append_value_def split: key.splits option.splits series.splits)

lemma append_value_buffered:
  "append_value k v r = (Inr u, r') \<Longrightarrow> buffered k r' = buffered k r @ [v]"
  by (auto simp: append_value_def buffered_def update_conv'
      split: key.splits option.splits series.splits)

section \<open>Properties of report_value\<close>

lemma export_phase_memory:
  "export_phase rt m k v conf r = (res, r') \<Longrightarrow>
   variables r' = variables r \<and> timesteps r' = timesteps r \<and> export_folder r' = export_folder r"
  by (auto simp: export_phase_def dest: export_value_memory split: if_splits)

lemma export_phase_written_other:
  "export_phase rt m k v conf r = (res, r') \<Longrightarrow> key_name k \<noteq> n \<Longrightarrow> written_for n r' = written_for n r"
  by (auto simp: export_phase_def dest: export_value_written_other split: if_splits)

lemma save_phase_disk:
  "save_phase k v conf r = (res, r') \<Longrightarrow>
   disk r' = disk r \<and> timesteps r' = timesteps r \<and> export_folder r' = export_folder r"
  by (auto simp: save_phase_def dest: append_value_disk split: if_splits)

lemma save_phase_other:
  "save_phase k v conf r = (res, r') \<Longrightarrow> key_name k \<noteq> n \<Longrightarrow>
   map_of (variables r') n = map_of (variables r) n"
  by (auto simp: save_phase_def dest: append_value_other split: if_splits)

text \<open>What \<open>report_value\<close> does once the value is native and the save type is one of the
  three: the export phase, then the save phase.\<close>

lemma report_value_phases:
  assumes "report_value rt m k v conf r = (Inr u, r')"
  shows "\<exists>x r1. native_value v = Inr x \<and> export_phase rt m k x conf r = (Inr (), r1) \<and>
           save_phase k x conf r1 = (Inr (), r')"
  using assms
  by (auto simp: report_value_def split: sum.splits option.splits if_splits prod.splits)

lemma report_value_other:
  assumes "report_value rt m k v conf r = (res, r')" and "key_name k \<noteq> n"
  shows "map_of (variables r') n = map_of (variables r) n \<and> written_for n r' = written_for n r"
proof (cases "native_value v")
  case (Inl e)
  then show ?thesis using assms(1) by (simp add: report_value_def)
next
  case (Inr x)
  show ?thesis
  proof (cases "d_save conf")
    case None
    then show ?thesis using assms(1) Inr by (simp add: report_value_def)
  next
    case (Some s)
    show ?thesis
    proof (cases "s \<in> {''save'', ''export'', ''save+export''}")
      case False
      then show ?thesis using assms(1) Inr Some by (simp add: report_value_def)
    next
      case True
      obtain res1 r1 where e: "export_phase rt m k x conf r = (res1, r1)" by (cases "export_phase rt m k x conf r")
      have v1: "variables r1 = variables r" and w1: "written_for n r1 = written_for n r"
        using export_phase_memory [OF e] export_phase_written_other [OF e assms(2)] by simp_all
      show ?thesis
      proof (cases res1)
        case (Inl e1)
        then have "r' = r1" using assms(1) Inr Some True e by (auto simp: report_value_def)
        then show ?thesis using v1 w1 by simp
      next
        case (Inr u1)
        then have s: "save_phase k x conf r1 = (res, r')"
          using assms(1) \<open>native_value v = Inr x\<close> Some True e by (auto simp: report_value_def)
        have "map_of (variables r') n = map_of (variables r1) n"
          using save_phase_other [OF s assms(2)] .
        moreover have "written_for n r' = written_for n r1"
          using save_phase_disk [OF s] by (simp add: written_for_def)
        ultimately show ?thesis using v1 w1 by simp
      qed
    qed
  qed
qed

lemma report_value_memory:
  assumes "report_value rt m k v conf r = (res, r')"
  shows "timesteps r' = timesteps r \<and> export_folder r' = export_folder r"
  using assms
  by (auto simp: report_value_def split: sum.splits option.splits if_splits prod.splits
      dest!: export_phase_memory save_phase_disk)

text \<open>A directive whose save type includes \<open>save\<close>: a successful call appends the native
  value to the series of the key.\<close>

lemma report_value_saves:
  assumes "report_value rt m k v conf r = (Inr u, r')"
    and "d_save conf = Some ''save'' \<or> d_save conf = Some ''save+export''"
  shows "\<exists>x. native_value v = Inr x \<and> buffered k r' = buffered k r @ [x]"
proof -
  obtain x r1 where x: "native_value v = Inr x" "export_phase rt m k x conf r = (Inr (), r1)"
    "save_phase k x conf r1 = (Inr (), r')"
    using report_value_phases [OF assms(1)] by blast
  have "append_value k x r1 = (Inr (), r')" using x(3) assms(2) by (auto simp: save_phase_def)
  then have "buffered k r' = buffered k r1 @ [x]" by (rule append_value_buffered)
  moreover have "buffered k r1 = buffered k r"
    using export_phase_memory [OF x(2)] by (cases k) (simp_all add: buffered_def)
  ultimately show ?thesis using x(1) by simp
qed


lemmas run_defs =
  step_def extract_agent_data_def agent_values_def get_attr_def parse_agent_data_def
  reduced_value_def report_value_def native_value_def native_scalar_def native_list_def
  np_size_def np_item_def check_value_def export_phase_def save_phase_def export_value_def
  append_value_def path_join_def makedirs_def export_filename_def str_remove_def write_file_def
  report_def report_entry_def build_table_def directive_of_def dict_of_def
  example_runtime_def example_model_def example_table_def wealth_directive_def fresh_reporter_def
  buffered_def written_for_def valid_scalar_def

section \<open>The claims about values, files and errors\<close>




text \<open>The items of a list are the items of its elements, one for one; the first element
  without an item decides the error.\<close>

lemma items_Inr:
  "items vs = Inr xs \<longleftrightarrow> list_all2 (\<lambda>u x. np_item u = Inr x) vs xs"
proof (induction vs arbitrary: xs)
  case Nil
  then show ?case by auto
next
  case (Cons u us)
  show ?case
    by (cases "np_item u"; cases "items us")
       (auto simp: list_all2_Cons1 Cons.IH [symmetric])
qed







text \<open>
  C4 at a directive with \<open>initial_only\<close> set: the export at timestep 0 writes a file named
  by the time, not \<open>initial\<close>, because export_value looks at the key \<open>frequency\<close>.
\<close>

theorem initial_only_export_named_by_time:
  "d_initial_only wealth_directive = Some True \<and>
   map w_path (writes (disk (snd (step example_runtime (example_model 0 ''2020-01-01T00:00:00'')
      fresh_reporter)))) = [''report/wealth/20200101T000000.npy'']"
  by (simp add: run_defs)










text \<open>
  C10. Every call of export_value for a string name leaves the folder of the name in
  place, whatever the outcome; without \<open>format\<close> the call raises the configuration error
  and the reporter it leaves differs from the one it found by exactly that folder, which is
  new when it was not there before.
\<close>

theorem export_value_creates_folder_first:
  "path_join (export_folder r) n \<in> set (dirs (disk (snd (export_value rt (Name n) v conf r)))) \<and>
   (d_format conf = None \<longrightarrow>
      export_value rt (Name n) v conf r =
        (Inl (ValueError (''Export format must be specified for '' @ n @
                          '' in config file (npy/csv/xlsx).'')),
         r\<lparr>disk := makedirs (path_join (export_folder r) n) (disk r)\<rparr>) \<and>
      (path_join (export_folder r) n \<notin> set (dirs (disk r)) \<longrightarrow>
         dirs (disk (snd (export_value rt (Name n) v conf r))) =
           dirs (disk r) @ [path_join (export_folder r) n]))"
proof -
  have a: "path_join (export_folder r) n \<in> set (dirs (disk (snd (export_value rt (Name n) v conf r))))"
    by (auto simp: export_value_def Let_def write_file_def makedirs_dirs
        split: option.splits sum.splits)
  have b: "export_value rt (Name n) v conf r =
        (Inl (ValueError (''Export format must be specified for '' @ n @
                          '' in config file (npy/csv/xlsx).'')),
         r\<lparr>disk := makedirs (path_join (export_folder r) n) (disk r)\<rparr>)"
    if "d_format conf = None"
    using that by (simp add: export_value_def Let_def)
  have c: "dirs (disk (snd (export_value rt (Name n) v conf r))) =
           dirs (disk r) @ [path_join (export_folder r) n]"
    if "d_format conf = None" and "path_join (export_folder r) n \<notin> set (dirs (disk r))"
    using that by (simp add: b makedirs_new)
  show ?thesis using a b c by blast
qed

theorem export_value_creates_folder_first_witness:
  "export_value example_runtime (Name ''wealth'') (PyInt 1)
      (wealth_directive\<lparr>d_format := None\<rparr>) fresh_reporter =
     (Inl (ValueError ''Export format must be specified for wealth in config file (npy/csv/xlsx).''),
      fresh_reporter\<lparr>disk := \<lparr>dirs = [''report/wealth''], writes = []\<rparr>\<rparr>)"
  using export_value_creates_folder_first [of fresh_reporter "''wealth''" example_runtime "PyInt 1"
      "wealth_directive\<lparr>d_format := None\<rparr>"]
  by (simp add: fresh_reporter_def path_join_def makedirs_def)

lemma report_result_empty: "fst (report rt m r) = Inr d \<Longrightarrow> d = []"
  by (cases "report_loop rt m (variables r) r") (auto simp: report_def split: sum.splits)

text \<open>
  C1 at a reporter with one buffered series: report writes the table and returns the
  empty dict.
\<close>

theorem report_returns_empty_dict:
  "variables (snd (step example_runtime (example_model 0 ''2020-01-01T00:00:00'') fresh_reporter)) =
     [(''wealth'', Flat [NpArray [PyFloat (Num 1), PyFloat (Num 2)]])] \<and>
   fst (report example_runtime (example_model 1 ''2020-01-02T00:00:00'')
     (snd (step example_runtime (example_model 0 ''2020-01-01T00:00:00'') fresh_reporter))) = Inr []"
  by (simp add: run_defs)

section \<open>Properties of a step\<close>

text \<open>What a call for one name leaves alone: the series and the files of every other
  name.\<close>

lemma parse_agent_data_other:
  assumes "parse_agent_data rt m k vs agents conf r = (res, r')" and "key_name k \<noteq> n"
  shows "map_of (variables r') n = map_of (variables r) n \<and> written_for n r' = written_for n r"
proof (cases "reduced_value rt vs agents conf")
  case (Inl e)
  then show ?thesis using assms(1) by (simp add: parse_agent_data_def)
next
  case (Inr v)
  then have "report_value rt m k v conf r = (res, r')"
    using assms(1) by (simp add: parse_agent_data_def)
  then show ?thesis using assms(2) by (rule report_value_other)
qed

lemma split_loop_other:
  "split_loop rt m name ps agents conf r = (res, r') \<Longrightarrow> name \<noteq> n \<Longrightarrow>
   map_of (variables r') n = map_of (variables r) n \<and> written_for n r' = written_for n r"
proof (induction ps arbitrary: r)
  case Nil
  then show ?case by simp
next
  case (Cons p ps)
  obtain i row where p: "p = (i, row)" by (cases p)
  obtain res1 r1 where e: "parse_agent_data rt m (Pair name i) row agents conf r = (res1, r1)"
    by (cases "parse_agent_data rt m (Pair name i) row agents conf r")
  have f: "map_of (variables r1) n = map_of (variables r) n \<and> written_for n r1 = written_for n r"
    using parse_agent_data_other [OF e] Cons.prems(2) by simp
  show ?case
  proof (cases res1)
    case (Inl err)
    then have "r' = r1" using Cons.prems(1) p e by simp
    then show ?thesis using f by simp
  next
    case (Inr u)
    then have "split_loop rt m name ps agents conf r1 = (res, r')" using Cons.prems(1) p e by simp
    then show ?thesis using Cons.IH Cons.prems(2) f by simp
  qed
qed

lemma extract_agent_data_other:
  assumes "extract_agent_data rt m name conf r = (res, r')" and "name \<noteq> n"
  shows "map_of (variables r') n = map_of (variables r) n \<and> written_for n r' = written_for n r"
proof (cases "agent_values m conf")
  case (Inl e)
  then show ?thesis using assms(1) by (simp add: extract_agent_data_def)
next
  case (Inr av)
  obtain agents vs where av: "av = (agents, vs)" by (cases av)
  show ?thesis
  proof (cases "d_split conf = Some True")
    case False
    then have "parse_agent_data rt m (Name name) vs agents conf r = (res, r')"
      using assms(1) Inr av by (simp add: extract_agent_data_def)
    then show ?thesis using parse_agent_data_other assms(2) by simp
  next
    case True
    show ?thesis
    proof (cases "ids agents")
      case None
      then show ?thesis using assms(1) Inr av True by (simp add: extract_agent_data_def)
    next
      case (Some idl)
      show ?thesis
      proof (cases "py_iter vs")
        case (Inl e)
        then show ?thesis using assms(1) \<open>agent_values m conf = Inr av\<close> av True Some
          by (simp add: extract_agent_data_def)
      next
        case (Inr rows)
        then have "split_loop rt m name (zip idl rows) agents conf r = (res, r')"
          using assms(1) \<open>agent_values m conf = Inr av\<close> av True Some
          by (simp add: extract_agent_data_def)
        then show ?thesis using assms(2) by (rule split_loop_other)
      qed
    qed
  qed
qed

lemma for_directives_other:
  "for_directives rt m table r = (res, r') \<Longrightarrow> n \<notin> fst ` set table \<Longrightarrow>
   map_of (variables r') n = map_of (variables r) n \<and> written_for n r' = written_for n r"
proof (induction table arbitrary: r)
  case Nil
  then show ?case by simp
next
  case (Cons p table)
  obtain name conf where p: "p = (name, conf)" by (cases p)
  obtain res1 r1 where e: "extract_agent_data rt m name conf r = (res1, r1)"
    by (cases "extract_agent_data rt m name conf r")
  have "name \<noteq> n" using Cons.prems(2) p by auto
  then have f: "map_of (variables r1) n = map_of (variables r) n \<and> written_for n r1 = written_for n r"
    using extract_agent_data_other [OF e] by simp
  show ?case
  proof (cases res1)
    case (Inl err)
    then have "r' = r1" using Cons.prems(1) p e by simp
    then show ?thesis using f by simp
  next
    case (Inr u)
    then have "for_directives rt m table r1 = (res, r')" using Cons.prems(1) p e by simp
    then show ?thesis using Cons.IH Cons.prems(2) f by simp
  qed
qed

text \<open>A successful pass over a table with distinct names calls \<open>extract_agent_data\<close> for a
  given entry once, and nothing else touches the series and the files of its name.\<close>

lemma for_directives_entry:
  "for_directives rt m table r = (Inr u, r') \<Longrightarrow> distinct (map fst table) \<Longrightarrow>
   (n, conf) \<in> set table \<Longrightarrow>
   \<exists>r1 r2. map_of (variables r1) n = map_of (variables r) n \<and> written_for n r1 = written_for n r \<and>
     extract_agent_data rt m n conf r1 = (Inr (), r2) \<and>
     map_of (variables r') n = map_of (variables r2) n \<and> written_for n r' = written_for n r2"
proof (induction table arbitrary: r)
  case Nil
  then show ?case by simp
next
  case (Cons p table)
  obtain name c where p: "p = (name, c)" by (cases p)
  obtain res1 r1 where e: "extract_agent_data rt m name c r = (res1, r1)"
    by (cases "extract_agent_data rt m name c r")
  have ok: "res1 = Inr ()" and rest: "for_directives rt m table r1 = (Inr u, r')"
    using Cons.prems(1) p e by (auto split: sum.splits)
  show ?case
  proof (cases "name = n")
    case True
    then have "c = conf" and "n \<notin> fst ` set table"
      using Cons.prems(2,3) p by (auto simp: rev_image_eqI)
    then show ?thesis
      using for_directives_other [OF rest] e ok True by blast
  next
    case False
    then have mem: "(n, conf) \<in> set table" using Cons.prems(3) p by auto
    obtain r2 r3 where "map_of (variables r2) n = map_of (variables r1) n"
      "written_for n r2 = written_for n r1"
      "extract_agent_data rt m n conf r2 = (Inr (), r3)"
      "map_of (variables r') n = map_of (variables r3) n" "written_for n r' = written_for n r3"
      using Cons.IH [OF rest _ mem] Cons.prems(2) by auto
    then show ?thesis using extract_agent_data_other [OF e False] by (intro exI [of _ r2] exI [of _ r3]) simp
  qed
qed

lemma buffered_name_cong:
  "map_of (variables r) n = map_of (variables r') n \<Longrightarrow> buffered (Name n) r = buffered (Name n) r'"
  by (simp add: buffered_def)

lemma append_value_flat:
  "append_value (Name n) v r = (Inr u, r') \<Longrightarrow>
   map_of (variables r') n = Some (Flat (buffered (Name n) r'))"
  by (auto simp: append_value_def buffered_def update_conv' split: option.splits series.splits)

lemma extract_agent_data_flat:
  assumes "extract_agent_data rt m n conf r = (Inr u, r')" and "d_split conf \<noteq> Some True"
  shows "\<exists>agents vs v. agent_values m conf = Inr (agents, vs) \<and>
           reduced_value rt vs agents conf = Inr v \<and>
           report_value rt m (Name n) v conf r = (Inr (), r')"
  using assms
  by (auto simp: extract_agent_data_def parse_agent_data_def split: sum.splits prod.splits)

text \<open>One call of \<open>extract_agent_data\<close> for a directive that is not split and saves.\<close>

lemma extract_agent_data_saves:
  assumes "extract_agent_data rt m n conf r = (Inr u, r')" and "d_split conf \<noteq> Some True"
    and "d_save conf = Some ''save'' \<or> d_save conf = Some ''save+export''"
  shows "\<exists>x. step_value rt m conf = Inr x \<and> buffered (Name n) r' = buffered (Name n) r @ [x] \<and>
           map_of (variables r') n = Some (Flat (buffered (Name n) r'))"
proof -
  obtain agents vs v where a: "agent_values m conf = Inr (agents, vs)"
    "reduced_value rt vs agents conf = Inr v" "report_value rt m (Name n) v conf r = (Inr (), r')"
    using extract_agent_data_flat [OF assms(1,2)] by blast
  obtain x where x: "native_value v = Inr x" "buffered (Name n) r' = buffered (Name n) r @ [x]"
    using report_value_saves [OF a(3) assms(3)] by blast
  obtain y r1 where y: "native_value v = Inr y" "export_phase rt m (Name n) y conf r = (Inr (), r1)"
    "save_phase (Name n) y conf r1 = (Inr (), r')"
    using report_value_phases [OF a(3)] by blast
  have "append_value (Name n) y r1 = (Inr (), r')" using y(3) assms(3) by (auto simp: save_phase_def)
  then have flat: "map_of (variables r') n = Some (Flat (buffered (Name n) r'))"
    by (rule append_value_flat)
  have "step_value rt m conf = Inr x" using a(1,2) x(1) by (simp add: step_value_def)
  then show ?thesis using x(2) flat by blast
qed

text \<open>One call of \<open>extract_agent_data\<close> for a directive that is not split and exports
  initially only.\<close>

lemma extract_agent_data_exports_initially:
  assumes "extract_agent_data rt m n conf r = (Inr u, r')" and "d_split conf \<noteq> Some True"
    and "d_initial_only conf = Some True"
    and "d_save conf = Some ''export'' \<or> d_save conf = Some ''save+export''"
  shows "length (written_for n r') =
           length (written_for n r) + (if m_current_timestep m = 0 then 1 else 0)"
proof -
  obtain agents vs v where a: "report_value rt m (Name n) v conf r = (Inr (), r')"
    using extract_agent_data_flat [OF assms(1,2)] by blast
  obtain y r1 where y: "export_phase rt m (Name n) y conf r = (Inr (), r1)"
    "save_phase (Name n) y conf r1 = (Inr (), r')"
    using report_value_phases [OF a] by blast
  have s: "written_for n r' = written_for n r1"
    using save_phase_disk [OF y(2)] by (simp add: written_for_def)
  show ?thesis
  proof (cases "m_current_timestep m = 0")
    case True
    then have "export_value rt (Name n) y conf r = (Inr (), r1)"
      using y(1) assms(3,4) by (auto simp: export_phase_def)
    then obtain w where "written_for n r1 = written_for n r @ [w]"
      using export_value_written_ok by fastforce
    then show ?thesis using s True by simp
  next
    case False
    then have "r1 = r" using y(1) assms(3,4) by (auto simp: export_phase_def)
    then show ?thesis using s False by simp
  qed
qed

lemma step_entry:
  assumes "step rt m r = (Inr u, r')" and "m_config m = Some c" and "c_report c = Some table"
    and "distinct (map fst table)" and "(n, conf) \<in> set table"
  shows "\<exists>r1 r2. map_of (variables r1) n = map_of (variables r) n \<and> written_for n r1 = written_for n r \<and>
     extract_agent_data rt m n conf r1 = (Inr (), r2) \<and>
     map_of (variables r') n = map_of (variables r2) n \<and> written_for n r' = written_for n r2"
proof -
  let ?r = "r\<lparr>timesteps := timesteps r @ [m_current_time m]\<rparr>"
  have fd: "for_directives rt m table ?r = (Inr u, r')"
    using assms(1,2,3) by (simp add: step_def)
  obtain r1 r2 where f: "map_of (variables r1) n = map_of (variables ?r) n"
    "written_for n r1 = written_for n ?r"
    "extract_agent_data rt m n conf r1 = (Inr (), r2)"
    "map_of (variables r') n = map_of (variables r2) n" "written_for n r' = written_for n r2"
    using for_directives_entry [OF fd assms(4,5)] by blast
  have v: "map_of (variables ?r) n = map_of (variables r) n" by simp
  have w: "written_for n ?r = written_for n r" by (simp add: written_for_def)
  have "map_of (variables r1) n = map_of (variables r) n \<and> written_for n r1 = written_for n r \<and>
     extract_agent_data rt m n conf r1 = (Inr (), r2) \<and>
     map_of (variables r') n = map_of (variables r2) n \<and> written_for n r' = written_for n r2"
    using f v w by simp
  then show ?thesis by blast
qed

lemma step_saves:
  assumes "step rt m r = (Inr u, r')" and "m_config m = Some c" and "c_report c = Some table"
    and "distinct (map fst table)" and "(n, conf) \<in> set table" and "d_split conf \<noteq> Some True"
    and "d_save conf = Some ''save'' \<or> d_save conf = Some ''save+export''"
  shows "\<exists>x. step_value rt m conf = Inr x \<and> buffered (Name n) r' = buffered (Name n) r @ [x] \<and>
           map_of (variables r') n = Some (Flat (buffered (Name n) r'))"
proof -
  obtain r1 r2 where f: "map_of (variables r1) n = map_of (variables r) n"
    "extract_agent_data rt m n conf r1 = (Inr (), r2)"
    "map_of (variables r') n = map_of (variables r2) n"
    using step_entry [OF assms(1-5)] by blast
  obtain x where x: "step_value rt m conf = Inr x" "buffered (Name n) r2 = buffered (Name n) r1 @ [x]"
    "map_of (variables r2) n = Some (Flat (buffered (Name n) r2))"
    using extract_agent_data_saves [OF f(2) assms(6,7)] by blast
  have b1: "buffered (Name n) r1 = buffered (Name n) r"
    using f(1) by (rule buffered_name_cong)
  have b2: "buffered (Name n) r' = buffered (Name n) r2"
    using f(3) by (rule buffered_name_cong)
  have "buffered (Name n) r' = buffered (Name n) r @ [x]"
    by (simp only: b2 x(2) b1)
  moreover have "map_of (variables r') n = Some (Flat (buffered (Name n) r'))"
    by (simp only: f(3) x(3) b2)
  ultimately show ?thesis using x(1) by blast
qed

lemma step_exports_initially:
  assumes "step rt m r = (Inr u, r')" and "m_config m = Some c" and "c_report c = Some table"
    and "distinct (map fst table)" and "(n, conf) \<in> set table" and "d_split conf \<noteq> Some True"
    and "d_initial_only conf = Some True"
    and "d_save conf = Some ''export'' \<or> d_save conf = Some ''save+export''"
  shows "length (written_for n r') =
           length (written_for n r) + (if m_current_timestep m = 0 then 1 else 0)"
proof -
  obtain r1 r2 where f: "written_for n r1 = written_for n r"
    "extract_agent_data rt m n conf r1 = (Inr (), r2)"
    "written_for n r' = written_for n r2"
    using step_entry [OF assms(1-5)] by blast
  have "length (written_for n r2) =
           length (written_for n r1) + (if m_current_timestep m = 0 then 1 else 0)"
    using f(2) assms(6,7,8) by (rule extract_agent_data_exports_initially)
  then show ?thesis by (simp only: f(1,3))
qed

section \<open>The claims about runs of steps\<close>

text \<open>
  C7. With a report table of distinct names that stays the same, every sequence of k
  successful step() calls appends k values, one per call and in the order of the calls, to
  the series of a directive that is not split and whose save type includes save: the i-th
  new value is the value of the i-th step. From a store without values the series is a flat
  list of length exactly k. Nothing is assumed about initial_only.
\<close>

theorem flat_series_grows_with_steps:
  assumes "steps rt ms r = (Inr (), r')"
    and "\<forall>m\<in>set ms. \<exists>c. m_config m = Some c \<and> c_report c = Some table"
    and "distinct (map fst table)" and "(name, conf) \<in> set table"
    and "d_split conf \<noteq> Some True"
    and "d_save conf = Some ''save'' \<or> d_save conf = Some ''save+export''"
  shows "\<exists>xs. buffered (Name name) r' = buffered (Name name) r @ xs \<and> length xs = length ms \<and>
           (\<forall>i<length ms. step_value rt (ms ! i) conf = Inr (xs ! i)) \<and>
           (ms \<noteq> [] \<longrightarrow> map_of (variables r') name = Some (Flat (buffered (Name name) r'))) \<and>
           (variables r = [] \<longrightarrow> length (buffered (Name name) r') = length ms)"
proof -
  have main: "\<exists>xs. buffered (Name name) r' = buffered (Name name) r @ xs \<and> length xs = length ms \<and>
           (\<forall>i<length ms. step_value rt (ms ! i) conf = Inr (xs ! i)) \<and>
           (ms \<noteq> [] \<longrightarrow> map_of (variables r') name = Some (Flat (buffered (Name name) r')))"
    using assms(1,2)
  proof (induction ms arbitrary: r)
    case Nil
    then show ?case by simp
  next
    case (Cons m ms)
    obtain res1 r1 where s: "step rt m r = (res1, r1)" by (cases "step rt m r")
    have ok: "step rt m r = (Inr (), r1)" and rest: "steps rt ms r1 = (Inr (), r')"
      using Cons.prems(1) s by (auto split: sum.splits)
    obtain c where c: "m_config m = Some c" "c_report c = Some table" using Cons.prems(2) by auto
    obtain x where x: "step_value rt m conf = Inr x"
      "buffered (Name name) r1 = buffered (Name name) r @ [x]"
      "map_of (variables r1) name = Some (Flat (buffered (Name name) r1))"
      using step_saves [OF ok c assms(3,4,5,6)] by blast
    obtain xs where xs: "buffered (Name name) r' = buffered (Name name) r1 @ xs" "length xs = length ms"
      "\<forall>i<length ms. step_value rt (ms ! i) conf = Inr (xs ! i)"
      "ms \<noteq> [] \<longrightarrow> map_of (variables r') name = Some (Flat (buffered (Name name) r'))"
      using Cons.IH [OF rest] Cons.prems(2) by auto
    have last: "map_of (variables r') name = Some (Flat (buffered (Name name) r'))"
    proof (cases "ms = []")
      case True
      then have "r' = r1" using rest by simp
      then show ?thesis using x(3) by simp
    next
      case False
      then show ?thesis using xs(4) by simp
    qed
    have nth: "\<forall>i<length (m # ms). step_value rt ((m # ms) ! i) conf = Inr ((x # xs) ! i)"
      using x(1) xs(3) by (auto simp: nth_Cons split: nat.splits)
    have "buffered (Name name) r' = buffered (Name name) r @ (x # xs)" using x(2) xs(1) by simp
    moreover have "length (x # xs) = length (m # ms)" using xs(2) by simp
    ultimately show ?case using nth last by blast
  qed
  have "buffered (Name name) r = []" if "variables r = []"
    using that by (simp add: buffered_def)
  then show ?thesis using main by auto
qed

text \<open>
  C8, as amended. With a report table of distinct names that stays the same, a directive
  that is not split, has initial_only set and a save type that includes export writes one
  snapshot in each successful step() call during which the model's current_timestep is 0,
  and none in any other: over a run, as many snapshots as there are such calls. That is
  exactly one, written by the first call, when the counter is 0 at the first call only.
\<close>

theorem initial_only_exports_at_timestep_zero:
  assumes "steps rt ms r = (Inr (), r')"
    and "\<forall>m\<in>set ms. \<exists>c. m_config m = Some c \<and> c_report c = Some table"
    and "distinct (map fst table)" and "(name, conf) \<in> set table"
    and "d_split conf \<noteq> Some True"
    and "d_initial_only conf = Some True"
    and "d_save conf = Some ''export'' \<or> d_save conf = Some ''save+export''"
  shows "length (written_for name r') =
           length (written_for name r) + length (filter (\<lambda>m. m_current_timestep m = 0) ms) \<and>
         (\<forall>m0 rest. ms = m0 # rest \<longrightarrow> m_current_timestep m0 = 0 \<longrightarrow>
             (\<forall>m\<in>set rest. m_current_timestep m \<noteq> 0) \<longrightarrow>
             length (written_for name r') = length (written_for name r) + 1 \<and>
             length (written_for name (snd (step rt m0 r))) = length (written_for name r) + 1)"
proof -
  have count: "length (written_for name r') =
           length (written_for name r) + length (filter (\<lambda>m. m_current_timestep m = 0) ms)"
    using assms(1,2)
  proof (induction ms arbitrary: r)
    case Nil
    then show ?case by simp
  next
    case (Cons m ms)
    obtain res1 r1 where s: "step rt m r = (res1, r1)" by (cases "step rt m r")
    have ok: "step rt m r = (Inr (), r1)" and rest: "steps rt ms r1 = (Inr (), r')"
      using Cons.prems(1) s by (auto split: sum.splits)
    obtain c where c: "m_config m = Some c" "c_report c = Some table" using Cons.prems(2) by auto
    have one: "length (written_for name r1) =
           length (written_for name r) + (if m_current_timestep m = 0 then 1 else 0)"
      using step_exports_initially [OF ok c assms(3,4,5,6,7)] .
    have "length (written_for name r') =
           length (written_for name r1) + length (filter (\<lambda>m. m_current_timestep m = 0) ms)"
      using Cons.IH [OF rest] Cons.prems(2) by simp
    then show ?case using one by simp
  qed
  have first: "length (written_for name r') = length (written_for name r) + 1 \<and>
             length (written_for name (snd (step rt m0 r))) = length (written_for name r) + 1"
    if ms: "ms = m0 # rest" and z: "m_current_timestep m0 = 0"
      and nz: "\<forall>m\<in>set rest. m_current_timestep m \<noteq> 0" for m0 rest
  proof -
    have "filter (\<lambda>m. m_current_timestep m = 0) rest = []" using nz by (simp add: filter_empty_conv)
    then have a: "length (written_for name r') = length (written_for name r) + 1"
      using count ms z by simp
    obtain res1 r1 where s: "step rt m0 r = (res1, r1)" by (cases "step rt m0 r")
    have ok: "step rt m0 r = (Inr (), r1)"
      using assms(1) ms s by (auto split: sum.splits)
    obtain c where c: "m_config m0 = Some c" "c_report c = Some table" using assms(2) ms by auto
    have "length (written_for name r1) = length (written_for name r) + 1"
      using step_exports_initially [OF ok c assms(3,4,5,6,7)] z by simp
    then show ?thesis using a ok by simp
  qed
  show ?thesis using count first by blast
qed

lemma example_run:
  "fst (steps example_runtime
      [example_model 0 ''2020-01-01T00:00:00'', example_model 1 ''2020-01-02T00:00:00'']
      fresh_reporter) = Inr ()"
  by (simp add: run_defs)

theorem flat_series_grows_with_steps_witness:
  "length (buffered (Name ''wealth'') (snd (steps example_runtime
      [example_model 0 ''2020-01-01T00:00:00'', example_model 1 ''2020-01-02T00:00:00'']
      fresh_reporter))) = 2"
proof -
  let ?ms = "[example_model 0 ''2020-01-01T00:00:00'', example_model 1 ''2020-01-02T00:00:00'']"
  let ?r' = "snd (steps example_runtime ?ms fresh_reporter)"
  have run: "steps example_runtime ?ms fresh_reporter = (Inr (), ?r')"
    using example_run by (simp add: prod_eq_iff)
  have tbl: "\<forall>m\<in>set ?ms. \<exists>c. m_config m = Some c \<and> c_report c = Some example_table"
    by (simp add: example_model_def)
  have d: "distinct (map fst example_table)" and mem: "(''wealth'', wealth_directive) \<in> set example_table"
    by (simp_all add: example_table_def)
  have ns: "d_split wealth_directive \<noteq> Some True"
    and sv: "d_save wealth_directive = Some ''save'' \<or> d_save wealth_directive = Some ''save+export''"
    by (simp_all add: wealth_directive_def)
  have "variables fresh_reporter = []" by (simp add: fresh_reporter_def)
  then show ?thesis
    using flat_series_grows_with_steps [OF run tbl d mem ns sv] by auto
qed

theorem initial_only_exports_at_timestep_zero_witness:
  "length (written_for ''wealth'' (snd (steps example_runtime
      [example_model 0 ''2020-01-01T00:00:00'', example_model 1 ''2020-01-02T00:00:00'']
      fresh_reporter))) = 1"
proof -
  let ?ms = "[example_model 0 ''2020-01-01T00:00:00'', example_model 1 ''2020-01-02T00:00:00'']"
  let ?r' = "snd (steps example_runtime ?ms fresh_reporter)"
  have run: "steps example_runtime ?ms fresh_reporter = (Inr (), ?r')"
    using example_run by (simp add: prod_eq_iff)
  have tbl: "\<forall>m\<in>set ?ms. \<exists>c. m_config m = Some c \<and> c_report c = Some example_table"
    by (simp add: example_model_def)
  have d: "distinct (map fst example_table)" and mem: "(''wealth'', wealth_directive) \<in> set example_table"
    by (simp_all add: example_table_def)
  have ns: "d_split wealth_directive \<noteq> Some True"
    and io: "d_initial_only wealth_directive = Some True"
    and sv: "d_save wealth_directive = Some ''export'' \<or> d_save wealth_directive = Some ''save+export''"
    by (simp_all add: wealth_directive_def)
  have "length (written_for ''wealth'' ?r') =
     length (written_for ''wealth'' fresh_reporter) +
     length (filter (\<lambda>m. m_current_timestep m = 0) ?ms)"
    using initial_only_exports_at_timestep_zero [OF run tbl d mem ns io sv] by blast
  then show ?thesis by (simp add: written_for_def fresh_reporter_def example_model_def)
qed

text \<open>
  C8 as stated fails: two step() calls while the model's current_timestep is still 0 write
  two snapshots for a directive with initial_only set.
\<close>

theorem initial_only_exports_twice_counterexample:
  "d_initial_only wealth_directive = Some True \<and>
   fst (steps example_runtime
      [example_model 0 ''2020-01-01T00:00:00'', example_model 0 ''2020-01-02T00:00:00'']
      fresh_reporter) = Inr () \<and>
   map w_path (written_for ''wealth'' (snd (steps example_runtime
      [example_model 0 ''2020-01-01T00:00:00'', example_model 0 ''2020-01-02T00:00:00'']
      fresh_reporter))) =
     [''report/wealth/20200101T000000.npy'', ''report/wealth/20200102T000000.npy'']"
  by (simp add: run_defs)

end
